theory Spec2Isabelle
  imports Complex_Main "HOL-Library.Word" "HOL-Library.Signed_Division" "HOL-Library.Multiset"
begin

section \<open>Cell values\<close>

text \<open>
  The C++ \<open>Value\<close> is a \<open>std::variant\<close> over \<open>std::monostate\<close>, \<open>bool\<close>, the
  eight fixed-width integer types, \<open>float\<close>, \<open>double\<close>, \<open>std::string\<close> and
  \<open>std::vector<uint8_t>\<close>. Integers are words of their width; strings are byte strings.

  Floating-point payloads are represented by the extended rational they denote
  (\<open>NaN\<close>, the two infinities, or a finite value); both zeros are \<open>Finite 0\<close>. Only the
  comparisons \<open><\<close> and \<open>>\<close> of \<open>compareValues\<close> are applied to them.
\<close>

datatype ieee = NaN | NegInf | Finite rat | PosInf

datatype "Value" =
    is_monostate: VNull
  | is_bool: VBool (get_bool: bool)
  | VInt8 "8 word"
  | VInt16 "16 word"
  | VInt32 "32 word"
  | VInt64 "64 word"
  | VUInt8 "8 word"
  | VUInt16 "16 word"
  | VUInt32 "32 word"
  | VUInt64 "64 word"
  | VFloat32 ieee
  | VFloat64 ieee
  | is_string: VString (get_string: string)
  | is_bytes: VBytes (get_bytes: "8 word list")

datatype ValueType =
    Null | Bool | Int8 | Int16 | Int32 | Int64 | UInt8 | UInt16 | UInt32 | UInt64
  | Float32 | Float64 | String | Bytes

text \<open>
  Modelled from the spec: the declaration order of the alternatives of \<open>Value\<close>
  (\<open>types.h\<close> is not among the sources), which is what \<open>a.index()\<close> returns. The
  spec lists Null, Bool, the signed integers (8/16/32/64), the unsigned integers
  (8/16/32/64), Float32, Float64, String, Bytes.
\<close>

fun index :: "Value \<Rightarrow> nat" where
  "index VNull = 0"
| "index (VBool _) = 1"
| "index (VInt8 _) = 2"
| "index (VInt16 _) = 3"
| "index (VInt32 _) = 4"
| "index (VInt64 _) = 5"
| "index (VUInt8 _) = 6"
| "index (VUInt16 _) = 7"
| "index (VUInt32 _) = 8"
| "index (VUInt64 _) = 9"
| "index (VFloat32 _) = 10"
| "index (VFloat64 _) = 11"
| "index (VString _) = 12"
| "index (VBytes _) = 13"

subsection \<open>tryGetInt64 and tryGetDouble\<close>

text \<open>
  \<open>tryGetInt64\<close> widens every integer alternative to \<open>int64_t\<close>: signed ones are
  sign-extended, unsigned ones zero-extended, and \<open>uint64_t\<close> is reinterpreted
  (\<open>static_cast<int64_t>\<close>). The result \<open>None\<close> is the C++ \<open>false\<close>.
\<close>

fun tryGetInt64 :: "Value \<Rightarrow> 64 word option" where
  "tryGetInt64 (VInt32 p) = Some (scast p)"
| "tryGetInt64 (VInt64 p) = Some p"
| "tryGetInt64 (VUInt32 p) = Some (ucast p)"
| "tryGetInt64 (VUInt64 p) = Some p"
| "tryGetInt64 (VInt16 p) = Some (scast p)"
| "tryGetInt64 (VUInt16 p) = Some (ucast p)"
| "tryGetInt64 (VInt8 p) = Some (scast p)"
| "tryGetInt64 (VUInt8 p) = Some (ucast p)"
| "tryGetInt64 _ = None"

text \<open>
  \<open>static_cast<double>\<close> of an integer rounds to the nearest value with a 53-bit
  significand, ties to even. Integers of at most 64 bits never overflow a double.
\<close>

fun bit_length :: "nat \<Rightarrow> nat" where
  "bit_length n = (if n = 0 then 0 else Suc (bit_length (n div 2)))"

declare bit_length.simps [simp del]

definition round_to_double :: "int \<Rightarrow> rat" where
  "round_to_double n =
     (let a = nat \<bar>n\<bar>; b = bit_length a in
      if b \<le> 53 then of_int n
      else
        let e = b - 53; q = a div 2 ^ e; r = a mod 2 ^ e; h = 2 ^ (e - 1);
            q' = (if h < r \<or> (r = h \<and> odd q) then q + 1 else q)
        in of_int (sgn n * int (q' * 2 ^ e)))"

fun tryGetDouble :: "Value \<Rightarrow> ieee option" where
  "tryGetDouble (VFloat32 f) = Some f"
| "tryGetDouble (VFloat64 f) = Some f"
| "tryGetDouble (VInt8 p) = Some (Finite (round_to_double (sint p)))"
| "tryGetDouble (VInt16 p) = Some (Finite (round_to_double (sint p)))"
| "tryGetDouble (VInt32 p) = Some (Finite (round_to_double (sint p)))"
| "tryGetDouble (VInt64 p) = Some (Finite (round_to_double (sint p)))"
| "tryGetDouble (VUInt8 p) = Some (Finite (round_to_double (uint p)))"
| "tryGetDouble (VUInt16 p) = Some (Finite (round_to_double (uint p)))"
| "tryGetDouble (VUInt32 p) = Some (Finite (round_to_double (uint p)))"
| "tryGetDouble (VUInt64 p) = Some (Finite (round_to_double (uint p)))"
| "tryGetDouble _ = None"

text \<open>The C++ \<open><\<close> on doubles: false as soon as one side is NaN.\<close>

fun double_less :: "ieee \<Rightarrow> ieee \<Rightarrow> bool" where
  "double_less NaN _ = False"
| "double_less _ NaN = False"
| "double_less NegInf NegInf = False"
| "double_less NegInf _ = True"
| "double_less (Finite x) (Finite y) = (x < y)"
| "double_less (Finite _) PosInf = True"
| "double_less _ _ = False"

subsection \<open>std::string::compare\<close>

text \<open>
  \<open>compareValues\<close> returns the result of \<open>std::string::compare\<close> unchanged. The C++
  standard fixes only its sign; the value is the library's. The model follows GNU
  libstdc++: \<open>traits_type::compare\<close> (a \<open>memcmp\<close>, here the difference of the first
  two bytes that differ, read as unsigned) over the common length and, when that is 0,
  \<open>_S_compare\<close>: the difference of the two sizes clamped to the range of \<open>int\<close>.
\<close>

fun traits_compare :: "string \<Rightarrow> string \<Rightarrow> int" where
  "traits_compare (x # xs) (y # ys) =
     (if x = y then traits_compare xs ys else int (of_char x) - int (of_char y))"
| "traits_compare [] t = 0"
| "traits_compare (x # xs) [] = 0"

definition INT_MAX :: int where "INT_MAX = 2147483647"
definition INT_MIN :: int where "INT_MIN = - 2147483648"

definition S_compare :: "nat \<Rightarrow> nat \<Rightarrow> int" where
  "S_compare n1 n2 =
     (let d = int n1 - int n2 in
      if d > INT_MAX then INT_MAX else if d < INT_MIN then INT_MIN else d)"

definition string_compare :: "string \<Rightarrow> string \<Rightarrow> int" where
  "string_compare s t =
     (let r = traits_compare s t in if r = 0 then S_compare (length s) (length t) else r)"

subsection \<open>compareValues\<close>

text \<open>The blob loop walks both vectors up to the shorter length, then compares sizes.\<close>

fun blob_compare :: "8 word list \<Rightarrow> 8 word list \<Rightarrow> int" where
  "blob_compare (x # xs) (y # ys) =
     (if x < y then - 1 else if y < x then 1 else blob_compare xs ys)"
| "blob_compare [] (y # ys) = - 1"
| "blob_compare (x # xs) [] = 1"
| "blob_compare [] [] = 0"

definition compareValues :: "Value \<Rightarrow> Value \<Rightarrow> int" where
  "compareValues a b =
     (if is_monostate a then (if is_monostate b then 0 else - 1)
      else if is_monostate b then 1
      else if tryGetInt64 a \<noteq> None \<and> tryGetInt64 b \<noteq> None then
        (let aInt = the (tryGetInt64 a); bInt = the (tryGetInt64 b) in
         if sint aInt < sint bInt then - 1 else if sint aInt > sint bInt then 1 else 0)
      else if tryGetDouble a \<noteq> None \<and> tryGetDouble b \<noteq> None then
        (let aDouble = the (tryGetDouble a); bDouble = the (tryGetDouble b) in
         if double_less aDouble bDouble then - 1
         else if double_less bDouble aDouble then 1 else 0)
      else if is_string a \<and> is_string b then string_compare (get_string a) (get_string b)
      else if is_bytes a \<and> is_bytes b then blob_compare (get_bytes a) (get_bytes b)
      else if is_bool a \<and> is_bool b then
        (let aVal = get_bool a; bVal = get_bool b in
         if aVal = bVal then 0 else if aVal < bVal then - 1 else 1)
      else if index a < index b then - 1 else 1)"

subsection \<open>Reference orders for the comparison\<close>

text \<open>The order of two bytes of a \<open>std::string\<close>, read as unsigned.\<close>

definition byte_less :: "(char \<times> char) set" where
  "byte_less = {(x, y). (of_char x :: nat) < of_char y}"

text \<open>
  The value of an integer alternative as a signed 64-bit integer, in the words of the
  comparison contract: signed alternatives keep their value, the unsigned ones of 8, 16
  and 32 bits too, and a \<open>uint64_t\<close> beyond the signed range wraps to a negative value.
\<close>

fun int64_view :: "Value \<Rightarrow> int option" where
  "int64_view (VInt8 p) = Some (sint p)"
| "int64_view (VInt16 p) = Some (sint p)"
| "int64_view (VInt32 p) = Some (sint p)"
| "int64_view (VInt64 p) = Some (sint p)"
| "int64_view (VUInt8 p) = Some (uint p)"
| "int64_view (VUInt16 p) = Some (uint p)"
| "int64_view (VUInt32 p) = Some (uint p)"
| "int64_view (VUInt64 p) = Some (if uint p < 2 ^ 63 then uint p else uint p - 2 ^ 64)"
| "int64_view _ = None"

section \<open>The in-memory B-tree\<close>

record IndexEntry =
  key :: "Value"
  dataOffset :: "64 word"
  dataLength :: "32 word"
  sequence :: "64 word"

record BTreeNode =
  nodeId :: nat
  isLeaf :: bool
  parentId :: nat
  entries :: "IndexEntry list"
  children :: "nat list"

text \<open>
  The tree owns its nodes in a map from node id to node (\<open>nodes_\<close>); nodes refer to
  each other by id. Node ids and the entry counter are 64-bit counters that only count
  up, by one for every node and every entry that is stored. Nodes and entries are never
  removed except by \<open>clear()\<close>, which restarts both counters, so a counter that wraps
  would need \<open>2 ^ 64\<close> nodes or entries in memory at once: the counters are natural
  numbers here. For the same reason the \<open>static_cast<int>\<close> of a node's size is the
  size itself.
\<close>

record BTree =
  keyType :: ValueType
  order :: int
  nodes :: "nat \<rightharpoonup> BTreeNode"
  rootId :: nat
  nextNodeId :: nat
  entryCount :: nat

text \<open>
  \<open>getNode\<close> throws \<open>std::runtime_error("Node not found")\<close> for an id that is not in
  the map. Indexing a \<open>std::vector\<close> out of range is undefined behaviour in C++; the
  model makes it the error \<open>OutOfRange\<close>, so that its absence is something to prove.
\<close>

datatype error = NodeNotFound nat | OutOfRange

type_synonym 'a result = "error + 'a"

definition getNode :: "BTree \<Rightarrow> nat \<Rightarrow> BTreeNode result" where
  "getNode t nid = (case nodes t nid of None \<Rightarrow> Inl (NodeNotFound nid) | Some n \<Rightarrow> Inr n)"

definition elemAt :: "'a list \<Rightarrow> nat \<Rightarrow> 'a result" where
  "elemAt xs i = (if i < length xs then Inr (xs ! i) else Inl OutOfRange)"

text \<open>An \<open>int\<close> index is converted to \<open>size_t\<close>: a negative one is out of range.\<close>

definition elemAtInt :: "'a list \<Rightarrow> int \<Rightarrow> 'a result" where
  "elemAtInt xs i = (if i < 0 then Inl OutOfRange else elemAt xs (nat i))"

text \<open>Writing through a reference obtained from \<open>getNode\<close>.\<close>

definition modifyNode :: "BTree \<Rightarrow> nat \<Rightarrow> (BTreeNode \<Rightarrow> BTreeNode) \<Rightarrow> BTree" where
  "modifyNode t nid f =
     (case nodes t nid of None \<Rightarrow> t | Some n \<Rightarrow> t\<lparr>nodes := (nodes t)(nid \<mapsto> f n)\<rparr>)"

definition createNode :: "BTree \<Rightarrow> bool \<Rightarrow> nat \<Rightarrow> nat \<times> BTree" where
  "createNode t leaf parent =
     (let nid = nextNodeId t;
          node = \<lparr>nodeId = nid, isLeaf = leaf, parentId = parent, entries = [], children = []\<rparr>
      in (nid, t\<lparr>nodes := (nodes t)(nid \<mapsto> node), nextNodeId := nid + 1\<rparr>))"

text \<open>
  The constructor stores the key type and the order and creates the root. The member
  initialisers are in \<open>btree.h\<close>, which is not among the sources: the first node id
  \<open>firstId\<close> is a parameter, and the entry counter starts at 0 (an index is created
  empty).
\<close>

definition BTree_new :: "ValueType \<Rightarrow> int \<Rightarrow> nat \<Rightarrow> BTree" where
  "BTree_new kt ord firstId =
     (let t0 = \<lparr>keyType = kt, order = ord, nodes = Map.empty, rootId = 0, nextNodeId = firstId,
                entryCount = 0\<rparr>;
          (rid, t1) = createNode t0 True 0
      in t1\<lparr>rootId := rid\<rparr>)"

definition BTree_clear :: "BTree \<Rightarrow> BTree" where
  "BTree_clear t =
     (let t0 = t\<lparr>nodes := Map.empty, entryCount := 0, nextNodeId := 1\<rparr>;
          (rid, t1) = createNode t0 True 0
      in t1\<lparr>rootId := rid\<rparr>)"

subsection \<open>splitChild\<close>

text \<open>
  \<open>mid = (order_ - 1) / 2\<close> is C++ integer division, which truncates towards zero.
  The loop that moves the upper half of the entries starts at \<open>size_t i = mid + 1\<close>: a
  negative start converts to a huge index and the loop body never runs.
\<close>

definition upperHalf :: "'a list \<Rightarrow> int \<Rightarrow> 'a list" where
  "upperHalf xs mid = (if mid + 1 < 0 then [] else drop (nat (mid + 1)) xs)"

text \<open>
  The loop over the children that move to the sibling: each is appended to the sibling's
  \<open>children\<close> and its \<open>parentId\<close> is rewritten through \<open>getNode\<close>, which throws for
  an id that is not in the map.
\<close>

fun moveChildren :: "BTree \<Rightarrow> nat \<Rightarrow> nat list \<Rightarrow> BTree result" where
  "moveChildren t siblingId [] = Inr t"
| "moveChildren t siblingId (c # cs) =
     (let t1 = modifyNode t siblingId (\<lambda>n. n\<lparr>children := children n @ [c]\<rparr>) in
      case getNode t1 c of
        Inl e \<Rightarrow> Inl e
      | Inr _ \<Rightarrow> moveChildren (modifyNode t1 c (\<lambda>n. n\<lparr>parentId := siblingId\<rparr>)) siblingId cs)"

text \<open>\<open>v.insert(v.begin() + i, x)\<close>; a position beyond the end is undefined behaviour.\<close>

definition insertAt :: "'a list \<Rightarrow> int \<Rightarrow> 'a \<Rightarrow> 'a list result" where
  "insertAt xs i x =
     (if 0 \<le> i \<and> i \<le> int (length xs) then Inr (take (nat i) xs @ x # drop (nat i) xs)
      else Inl OutOfRange)"

definition splitChild :: "BTree \<Rightarrow> nat \<Rightarrow> int \<Rightarrow> BTree result" where
  "splitChild t pid childIndex =
     (case getNode t pid of Inl e \<Rightarrow> Inl e | Inr parent \<Rightarrow>
      case elemAtInt (children parent) childIndex of Inl e \<Rightarrow> Inl e | Inr childId \<Rightarrow>
      case getNode t childId of Inl e \<Rightarrow> Inl e | Inr child \<Rightarrow>
      let mid = (order t - 1) sdiv 2;
          (siblingId, t1) = createNode t (isLeaf child) pid;
          t2 = modifyNode t1 siblingId (\<lambda>n. n\<lparr>entries := upperHalf (entries child) mid\<rparr>)
      in
      case elemAtInt (entries child) mid of Inl e \<Rightarrow> Inl e | Inr midEntry \<Rightarrow>
      let t3 = modifyNode t2 childId (\<lambda>n. n\<lparr>entries := take (nat mid) (entries n)\<rparr>) in
      case (if \<not> isLeaf child then
              (case moveChildren t3 siblingId (upperHalf (children child) mid) of
                 Inl e \<Rightarrow> Inl e
               | Inr t4 \<Rightarrow>
                   Inr (modifyNode t4 childId
                          (\<lambda>n. n\<lparr>children := take (nat (mid + 1)) (children n)\<rparr>)))
            else Inr t3) of Inl e \<Rightarrow> Inl e | Inr t5 \<Rightarrow>
      case getNode t5 pid of Inl e \<Rightarrow> Inl e | Inr parentNode \<Rightarrow>
      case insertAt (entries parentNode) childIndex midEntry of Inl e \<Rightarrow> Inl e | Inr es \<Rightarrow>
      case insertAt (children parentNode) (childIndex + 1) siblingId of Inl e \<Rightarrow> Inl e | Inr cs \<Rightarrow>
      Inr (modifyNode t5 pid (\<lambda>n. n\<lparr>entries := es, children := cs\<rparr>)))"

subsection \<open>insert and insertNonFull\<close>

text \<open>
  The backward scan \<open>while (i >= 0 && compareValues(entry.key, node.entries[i].key) < 0) i--\<close>,
  started at \<open>i = size - 1\<close>; the result is the final \<open>i\<close>, possibly \<open>-1\<close>.
\<close>

function scanBack :: "Value \<Rightarrow> IndexEntry list \<Rightarrow> int \<Rightarrow> int" where
  "scanBack k es i =
     (if 0 \<le> i \<and> compareValues k (key (es ! nat i)) < 0 then scanBack k es (i - 1) else i)"
  by pat_completeness auto
termination
  by (relation "measure (\<lambda>(k, es, i). nat (i + 1))") auto

declare scanBack.simps [simp del]

text \<open>
  The recursive functions descend from a node to one of its children by id. The depth of
  the descent is bounded by a fuel argument: \<open>None\<close> means that the fuel ran out
  before the function returned, \<open>Some (Inl e)\<close> that it threw, \<open>Some (Inr x)\<close> that it
  returned \<open>x\<close>.
\<close>

fun insertNonFull :: "nat \<Rightarrow> BTree \<Rightarrow> nat \<Rightarrow> IndexEntry \<Rightarrow> BTree result option" where
  "insertNonFull 0 t nid entry = None"
| "insertNonFull (Suc fuel) t nid entry =
     (case getNode t nid of Inl e \<Rightarrow> Some (Inl e) | Inr node \<Rightarrow>
      if isLeaf node then
        (let i = scanBack (key entry) (entries node) (int (length (entries node)) - 1) in
         case insertAt (entries node) (i + 1) entry of Inl e \<Rightarrow> Some (Inl e) | Inr es \<Rightarrow>
         Some (Inr (modifyNode t nid (\<lambda>n. n\<lparr>entries := es\<rparr>))))
      else
        (let i = scanBack (key entry) (entries node) (int (length (entries node)) - 1) + 1 in
         case elemAtInt (children node) i of Inl e \<Rightarrow> Some (Inl e) | Inr childId \<Rightarrow>
         case getNode t childId of Inl e \<Rightarrow> Some (Inl e) | Inr child \<Rightarrow>
         if order t - 1 \<le> int (length (entries child)) then
           (case splitChild t nid i of Inl e \<Rightarrow> Some (Inl e) | Inr t' \<Rightarrow>
            case getNode t' nid of Inl e \<Rightarrow> Some (Inl e) | Inr nodeAfterSplit \<Rightarrow>
            case elemAtInt (entries nodeAfterSplit) i of Inl e \<Rightarrow> Some (Inl e) | Inr sep \<Rightarrow>
            let i' = (if 0 < compareValues (key entry) (key sep) then i + 1 else i) in
            case elemAtInt (children nodeAfterSplit) i' of Inl e \<Rightarrow> Some (Inl e) | Inr c \<Rightarrow>
            insertNonFull fuel t' c entry)
         else insertNonFull fuel t childId entry))"

definition BTree_insert ::
  "nat \<Rightarrow> BTree \<Rightarrow> Value \<Rightarrow> 64 word \<Rightarrow> 32 word \<Rightarrow> 64 word \<Rightarrow> BTree result option" where
  "BTree_insert fuel t k off len seq =
     (let entry = \<lparr>key = k, dataOffset = off, dataLength = len, sequence = seq\<rparr> in
      case getNode t (rootId t) of Inl e \<Rightarrow> Some (Inl e) | Inr rootNode \<Rightarrow>
      case (if order t - 1 \<le> int (length (entries rootNode)) then
              (let (newRootId, t1) = createNode t False 0;
                   t2 = modifyNode t1 newRootId (\<lambda>n. n\<lparr>children := children n @ [rootId t]\<rparr>)
               in case getNode t2 (rootId t) of Inl e \<Rightarrow> Inl e | Inr _ \<Rightarrow>
                  let t3 = modifyNode t2 (rootId t) (\<lambda>n. n\<lparr>parentId := newRootId\<rparr>) in
                  case splitChild t3 newRootId 0 of Inl e \<Rightarrow> Inl e | Inr t4 \<Rightarrow>
                  Inr (t4\<lparr>rootId := newRootId\<rparr>))
            else Inr t) of Inl e \<Rightarrow> Some (Inl e) | Inr t' \<Rightarrow>
      case insertNonFull fuel t' (rootId t') entry of
        None \<Rightarrow> None
      | Some (Inl e) \<Rightarrow> Some (Inl e)
      | Some (Inr t'') \<Rightarrow> Some (Inr (t''\<lparr>entryCount := entryCount t'' + 1\<rparr>)))"

subsection \<open>search\<close>

text \<open>The two forward scans of \<open>searchNode\<close> and the loop that gathers equal keys.\<close>

function skipGreater :: "Value \<Rightarrow> IndexEntry list \<Rightarrow> nat \<Rightarrow> nat" where
  "skipGreater k es i =
     (if i < length es \<and> 0 < compareValues k (key (es ! i)) then skipGreater k es (i + 1) else i)"
  by pat_completeness auto
termination
  by (relation "measure (\<lambda>(k, es, i). length es - i)") auto

declare skipGreater.simps [simp del]

function collectEqual ::
  "Value \<Rightarrow> IndexEntry list \<Rightarrow> nat \<Rightarrow> IndexEntry list \<Rightarrow> IndexEntry list" where
  "collectEqual k es i results =
     (if i < length es \<and> compareValues k (key (es ! i)) = 0
      then collectEqual k es (i + 1) (results @ [es ! i]) else results)"
  by pat_completeness auto
termination
  by (relation "measure (\<lambda>(k, es, i, results). length es - i)") auto

declare collectEqual.simps [simp del]

fun searchNode ::
  "nat \<Rightarrow> BTree \<Rightarrow> nat \<Rightarrow> Value \<Rightarrow> IndexEntry list \<Rightarrow> IndexEntry list result option" where
  "searchNode 0 t nid k results = None"
| "searchNode (Suc fuel) t nid k results =
     (case getNode t nid of Inl e \<Rightarrow> Some (Inl e) | Inr node \<Rightarrow>
      let i = skipGreater k (entries node) 0;
          results' = collectEqual k (entries node) i results
      in
      if \<not> isLeaf node then
        (let childIdx = skipGreater k (entries node) 0 in
         case elemAt (children node) childIdx of Inl e \<Rightarrow> Some (Inl e) | Inr c \<Rightarrow>
         searchNode fuel t c k results')
      else Some (Inr results'))"

definition BTree_search :: "nat \<Rightarrow> BTree \<Rightarrow> Value \<Rightarrow> IndexEntry list result option" where
  "BTree_search fuel t k = searchNode fuel t (rootId t) k []"

subsection \<open>searchFirst\<close>

text \<open>
  In \<open>searchNodeFirstInt\<close> the local \<open>entryInt\<close> is declared without an initialiser and
  is assigned by \<open>tryGetInt64\<close> only when the entry's key is an integer. For a key that
  is not an integer, the comparison reads whatever the local holds: the parameter
  \<open>junk\<close> stands for that value.
\<close>

definition entryInt64 :: "64 word \<Rightarrow> Value \<Rightarrow> 64 word" where
  "entryInt64 junk v = (case tryGetInt64 v of Some p \<Rightarrow> p | None \<Rightarrow> junk)"

text \<open>Both binary searches keep \<open>lo \<le> mid < hi \<le> size\<close>, so \<open>entries[mid]\<close> exists.\<close>

function lowerBoundInt :: "64 word \<Rightarrow> 64 word \<Rightarrow> IndexEntry list \<Rightarrow> nat \<Rightarrow> nat \<Rightarrow> nat" where
  "lowerBoundInt junk keyInt es lo hi =
     (if lo < hi then
        (let mid = lo + (hi - lo) div 2 in
         if sint keyInt \<le> sint (entryInt64 junk (key (es ! mid)))
         then lowerBoundInt junk keyInt es lo mid
         else lowerBoundInt junk keyInt es (mid + 1) hi)
      else lo)"
  by pat_completeness auto
termination
  by (relation "measure (\<lambda>(junk, keyInt, es, lo, hi). hi - lo)") auto

declare lowerBoundInt.simps [simp del]

function lowerBound :: "Value \<Rightarrow> IndexEntry list \<Rightarrow> nat \<Rightarrow> nat \<Rightarrow> nat" where
  "lowerBound k es lo hi =
     (if lo < hi then
        (let mid = lo + (hi - lo) div 2 in
         if compareValues k (key (es ! mid)) \<le> 0
         then lowerBound k es lo mid
         else lowerBound k es (mid + 1) hi)
      else lo)"
  by pat_completeness auto
termination
  by (relation "measure (\<lambda>(k, es, lo, hi). hi - lo)") auto

declare lowerBound.simps [simp del]

text \<open>The \<open>bool\<close> result and the out-parameter \<open>result\<close> together are an option.\<close>

fun searchNodeFirstInt ::
  "nat \<Rightarrow> 64 word \<Rightarrow> BTree \<Rightarrow> nat \<Rightarrow> 64 word \<Rightarrow> IndexEntry option result option" where
  "searchNodeFirstInt 0 junk t nid keyInt = None"
| "searchNodeFirstInt (Suc fuel) junk t nid keyInt =
     (case getNode t nid of Inl e \<Rightarrow> Some (Inl e) | Inr node \<Rightarrow>
      let lo = lowerBoundInt junk keyInt (entries node) 0 (length (entries node)) in
      if lo < length (entries node) \<and> keyInt = entryInt64 junk (key (entries node ! lo))
      then Some (Inr (Some (entries node ! lo)))
      else if \<not> isLeaf node \<and> lo < length (children node)
      then searchNodeFirstInt fuel junk t (children node ! lo) keyInt
      else Some (Inr None))"

fun searchNodeFirst ::
  "nat \<Rightarrow> 64 word \<Rightarrow> BTree \<Rightarrow> nat \<Rightarrow> Value \<Rightarrow> IndexEntry option result option" where
  "searchNodeFirst 0 junk t nid k = None"
| "searchNodeFirst (Suc fuel) junk t nid k =
     (case tryGetInt64 k of
        Some keyInt \<Rightarrow> searchNodeFirstInt (Suc fuel) junk t nid keyInt
      | None \<Rightarrow>
         (case getNode t nid of Inl e \<Rightarrow> Some (Inl e) | Inr node \<Rightarrow>
          let lo = lowerBound k (entries node) 0 (length (entries node)) in
          if lo < length (entries node) \<and> compareValues k (key (entries node ! lo)) = 0
          then Some (Inr (Some (entries node ! lo)))
          else if \<not> isLeaf node \<and> lo < length (children node)
          then searchNodeFirst fuel junk t (children node ! lo) k
          else Some (Inr None)))"

definition BTree_searchFirst ::
  "nat \<Rightarrow> 64 word \<Rightarrow> BTree \<Rightarrow> Value \<Rightarrow> IndexEntry option result option" where
  "BTree_searchFirst fuel junk t k = searchNodeFirst fuel junk t (rootId t) k"

subsection \<open>range and all\<close>

text \<open>
  \<open>rangeSearch\<close> and \<open>collectAll\<close> call themselves from inside the loop over the
  entries of a node. The loop is a function of its own, mutually recursive with the
  function on nodes; it returns the final \<open>i\<close> where the code reads it after the loop.
\<close>

function rangeSearch ::
    "nat \<Rightarrow> BTree \<Rightarrow> nat \<Rightarrow> Value \<Rightarrow> Value \<Rightarrow> IndexEntry list \<Rightarrow> IndexEntry list result option"
  and rangeLoop ::
    "nat \<Rightarrow> BTree \<Rightarrow> BTreeNode \<Rightarrow> nat \<Rightarrow> Value \<Rightarrow> Value \<Rightarrow> IndexEntry list
       \<Rightarrow> (nat \<times> IndexEntry list) result option"
  where
  "rangeSearch 0 t nid minKey maxKey results = None"
| "rangeSearch (Suc fuel) t nid minKey maxKey results =
     (case getNode t nid of Inl e \<Rightarrow> Some (Inl e) | Inr node \<Rightarrow>
      case rangeLoop fuel t node 0 minKey maxKey results of
        None \<Rightarrow> None
      | Some (Inl e) \<Rightarrow> Some (Inl e)
      | Some (Inr (i, results')) \<Rightarrow>
          if \<not> isLeaf node \<and> i = length (entries node) \<and> i < length (children node)
          then rangeSearch fuel t (children node ! i) minKey maxKey results'
          else Some (Inr results'))"
| "rangeLoop fuel t node i minKey maxKey results =
     (if i < length (entries node) then
        (let entry = entries node ! i;
             cmpMin = compareValues (key entry) minKey;
             cmpMax = compareValues (key entry) maxKey
         in
         case (if \<not> isLeaf node \<and> 0 \<le> cmpMin \<and> i < length (children node)
               then rangeSearch fuel t (children node ! i) minKey maxKey results
               else Some (Inr results)) of
           None \<Rightarrow> None
         | Some (Inl e) \<Rightarrow> Some (Inl e)
         | Some (Inr results1) \<Rightarrow>
             (let results2 = (if 0 \<le> cmpMin \<and> cmpMax \<le> 0 then results1 @ [entry] else results1)
              in if 0 < cmpMax then Some (Inr (i, results2))
                 else rangeLoop fuel t node (i + 1) minKey maxKey results2))
      else Some (Inr (i, results)))"
  by pat_completeness auto
termination
  by (relation "inv_image (less_than <*lex*> less_than <*lex*> less_than)
        (\<lambda>x. case x of
           Inl (fuel, t, nid, minKey, maxKey, results) \<Rightarrow> (fuel, 0, 0)
         | Inr (fuel, t, node, i, minKey, maxKey, results) \<Rightarrow>
             (fuel, 1, length (entries node) - i))") auto

declare rangeLoop.simps [simp del]

definition BTree_range ::
  "nat \<Rightarrow> BTree \<Rightarrow> Value \<Rightarrow> Value \<Rightarrow> IndexEntry list result option" where
  "BTree_range fuel t minKey maxKey = rangeSearch fuel t (rootId t) minKey maxKey []"

function collectAll ::
    "nat \<Rightarrow> BTree \<Rightarrow> nat \<Rightarrow> IndexEntry list \<Rightarrow> IndexEntry list result option"
  and collectLoop ::
    "nat \<Rightarrow> BTree \<Rightarrow> BTreeNode \<Rightarrow> nat \<Rightarrow> IndexEntry list \<Rightarrow> IndexEntry list result option"
  where
  "collectAll 0 t nid results = None"
| "collectAll (Suc fuel) t nid results =
     (case getNode t nid of Inl e \<Rightarrow> Some (Inl e) | Inr node \<Rightarrow>
      case collectLoop fuel t node 0 results of
        None \<Rightarrow> None
      | Some (Inl e) \<Rightarrow> Some (Inl e)
      | Some (Inr results') \<Rightarrow>
          if \<not> isLeaf node \<and> length (entries node) < length (children node)
          then collectAll fuel t (children node ! (length (children node) - 1)) results'
          else Some (Inr results'))"
| "collectLoop fuel t node i results =
     (if i < length (entries node) then
        (case (if \<not> isLeaf node
               then (case elemAt (children node) i of
                       Inl e \<Rightarrow> Some (Inl e)
                     | Inr c \<Rightarrow> collectAll fuel t c results)
               else Some (Inr results)) of
           None \<Rightarrow> None
         | Some (Inl e) \<Rightarrow> Some (Inl e)
         | Some (Inr results1) \<Rightarrow> collectLoop fuel t node (i + 1) (results1 @ [entries node ! i]))
      else Some (Inr results))"
  by pat_completeness auto
termination
  by (relation "inv_image (less_than <*lex*> less_than <*lex*> less_than)
        (\<lambda>x. case x of
           Inl (fuel, t, nid, results) \<Rightarrow> (fuel, 0, 0)
         | Inr (fuel, t, node, i, results) \<Rightarrow> (fuel, 1, length (entries node) - i))") auto

declare collectLoop.simps [simp del]

definition BTree_all :: "nat \<Rightarrow> BTree \<Rightarrow> IndexEntry list result option" where
  "BTree_all fuel t = collectAll fuel t (rootId t) []"

subsection \<open>Runs of the public interface\<close>

text \<open>
  The operations that change an index are \<open>insert\<close> and \<open>clear\<close>. A run applies a
  list of them in order and stops at the first one that throws. \<open>live_entries\<close> are the
  entries inserted since construction or the last \<open>clear\<close>, in the order of the calls.
\<close>

datatype BTree_op = Insert "Value" "64 word" "32 word" "64 word" | Clear

fun entry_of :: "BTree_op \<Rightarrow> IndexEntry" where
  "entry_of (Insert k off len seq) =
     \<lparr>key = k, dataOffset = off, dataLength = len, sequence = seq\<rparr>"
| "entry_of Clear = \<lparr>key = VNull, dataOffset = 0, dataLength = 0, sequence = 0\<rparr>"

fun BTree_run :: "nat \<Rightarrow> BTree \<Rightarrow> BTree_op list \<Rightarrow> BTree result option" where
  "BTree_run fuel t [] = Some (Inr t)"
| "BTree_run fuel t (Insert k off len seq # ops) =
     (case BTree_insert fuel t k off len seq of
        None \<Rightarrow> None
      | Some (Inl e) \<Rightarrow> Some (Inl e)
      | Some (Inr t') \<Rightarrow> BTree_run fuel t' ops)"
| "BTree_run fuel t (Clear # ops) = BTree_run fuel (BTree_clear t) ops"

fun live_entries :: "IndexEntry list \<Rightarrow> BTree_op list \<Rightarrow> IndexEntry list" where
  "live_entries acc [] = acc"
| "live_entries acc (Clear # ops) = live_entries [] ops"
| "live_entries acc (x # ops) = live_entries (acc @ [entry_of x]) ops"

section \<open>The index backed by the host SQL engine\<close>

subsection \<open>The host engine\<close>

text \<open>
  \<open>SqliteIndex\<close> talks to the host SQL engine (SQLite) through prepared statements.
  The engine is not part of the repository; the model keeps of it what the statements of
  \<open>SqliteIndex\<close> use. A value has one of five storage classes. A table created
  \<open>WITHOUT ROWID\<close> is a B-tree keyed by its primary key: its rows are kept, and
  scanned, in the order of \<open>(key, sequence)\<close>.
\<close>

datatype sql_value =
    SqlNull | SqlInteger "64 word" | SqlReal ieee | SqlText string | SqlBlob "8 word list"

record sql_row =
  col_key :: sql_value
  col_data_offset :: "64 word"
  col_data_length :: "64 word"
  col_sequence :: "64 word"

text \<open>
  A table is its declaration and its rows. The rows have the four columns that the
  statements of \<open>SqliteIndex\<close> read and write; a table declared with other columns is
  told apart by its declaration. The engine compares the names of tables and columns
  without regard to the case of the ASCII letters: the database maps the folded name of
  a table to the table.
\<close>

record sql_column =
  column_name :: string
  column_type :: string
  column_not_null :: bool

record sql_table =
  table_name :: string
  table_columns :: "sql_column list"
  table_primary_key :: "string list"
  table_without_rowid :: bool
  table_rows :: "sql_row list"

type_synonym sqlite3 = "string \<rightharpoonup> sql_table"

definition ascii_lower :: "char \<Rightarrow> char" where
  "ascii_lower c =
     (case map_of (zip ''ABCDEFGHIJKLMNOPQRSTUVWXYZ'' ''abcdefghijklmnopqrstuvwxyz'') c of
        Some d \<Rightarrow> d
      | None \<Rightarrow> c)"

definition fold_name :: "string \<Rightarrow> string" where
  "fold_name s = map ascii_lower s"

datatype sqlite_rc = SQLITE_OK | SQLITE_ERROR | SQLITE_CONSTRAINT | SQLITE_ROW | SQLITE_DONE

text \<open>
  The engine's conversions between storage classes (the affinity of a declared column
  type, and the conversions made by the \<open>sqlite3_column_*\<close> accessors) parse and print
  numbers. They are parameters of the model: a theorem that depends on one of them says
  which of its values it needs. So are the engine's answers to SQL text other than the
  statements modelled below (\<open>exec_other\<close>, \<open>prepare_other\<close>), and whether the engine
  refuses a statement for a reason outside the statement, such as a database that is
  locked or read-only or memory that has run out (\<open>refuses\<close>).
\<close>

record host =
  refuses :: "string \<Rightarrow> bool"
  exec_other :: "sqlite3 \<Rightarrow> string \<Rightarrow> sqlite_rc \<times> sqlite3"
  prepare_other :: "sqlite3 \<Rightarrow> string \<Rightarrow> sqlite_rc"
  affinity :: "string \<Rightarrow> sql_value \<Rightarrow> sql_value"
  column_int64 :: "sql_value \<Rightarrow> 64 word"
  column_double :: "sql_value \<Rightarrow> ieee"
  column_text :: "sql_value \<Rightarrow> string"
  column_blob :: "sql_value \<Rightarrow> 8 word list"

text \<open>A NULL is never converted.\<close>

definition apply_affinity :: "host \<Rightarrow> string \<Rightarrow> sql_value \<Rightarrow> sql_value" where
  "apply_affinity h decl v = (if v = SqlNull then SqlNull else affinity h decl v)"

text \<open>
  The engine's order of values: NULL first, then INTEGER and REAL by numeric value
  (compared exactly), then TEXT and then BLOB, both bytewise.
\<close>

fun sql_class :: "sql_value \<Rightarrow> nat" where
  "sql_class SqlNull = 0"
| "sql_class (SqlInteger _) = 1"
| "sql_class (SqlReal _) = 1"
| "sql_class (SqlText _) = 2"
| "sql_class (SqlBlob _) = 3"

fun sql_number :: "sql_value \<Rightarrow> ieee" where
  "sql_number (SqlInteger x) = Finite (of_int (sint x))"
| "sql_number (SqlReal r) = r"
| "sql_number _ = NaN"

fun sql_compare :: "sql_value \<Rightarrow> sql_value \<Rightarrow> int" where
  "sql_compare (SqlText s) (SqlText t) = sgn (string_compare s t)"
| "sql_compare (SqlBlob x) (SqlBlob y) = blob_compare x y"
| "sql_compare a b =
     (if sql_class a < sql_class b then - 1
      else if sql_class b < sql_class a then 1
      else if double_less (sql_number a) (sql_number b) then - 1
      else if double_less (sql_number b) (sql_number a) then 1 else 0)"

text \<open>The position of a new row in primary-key order \<open>(key, sequence)\<close>.\<close>

definition pk_less :: "sql_row \<Rightarrow> sql_row \<Rightarrow> bool" where
  "pk_less r r' =
     (sql_compare (col_key r) (col_key r') < 0 \<or>
      (sql_compare (col_key r) (col_key r') = 0 \<and> sint (col_sequence r) < sint (col_sequence r')))"

fun pk_insert :: "sql_row \<Rightarrow> sql_row list \<Rightarrow> sql_row list" where
  "pk_insert r [] = [r]"
| "pk_insert r (x # xs) = (if pk_less r x then r # x # xs else x # pk_insert r xs)"

subsection \<open>The statements that the engine is given\<close>

text \<open>
  The engine receives SQL as a C string, which ends at the first NUL byte.
\<close>

definition c_str :: "string \<Rightarrow> string" where
  "c_str s = takeWhile (\<lambda>c. c \<noteq> CHR 0x00) s"

text \<open>
  The tokens of the statements: words (keywords, bare names and numbers), names in
  double quotes, inside which a doubled quote stands for one quote, and operators. Text
  with anything else in it is not tokenised here (\<open>None\<close>).
\<close>

datatype token = Word string | Quoted string | Op string

datatype lex_state = Idle | InWord string | InQuoted string | QuoteSeen string | InCmp char

definition is_space :: "char \<Rightarrow> bool" where
  "is_space c = (c \<in> set [CHR 0x20, CHR 0x09, CHR 0x0A, CHR 0x0C, CHR 0x0D])"

definition is_ident :: "char \<Rightarrow> bool" where
  "is_ident c =
     (c \<in> set ''_abcdefghijklmnopqrstuvwxyzABCDEFGHIJKLMNOPQRSTUVWXYZ0123456789'')"

function lex :: "lex_state \<Rightarrow> string \<Rightarrow> token list option" where
  "lex Idle [] = Some []"
| "lex (InWord w) [] = Some [Word w]"
| "lex (InQuoted q) [] = None"
| "lex (QuoteSeen q) [] = Some [Quoted q]"
| "lex (InCmp x) [] = Some [Op [x]]"
| "lex Idle (c # cs) =
     (if c = CHR 0x22 then lex (InQuoted []) cs
      else if is_space c then lex Idle cs
      else if is_ident c then lex (InWord [c]) cs
      else if c \<in> set ''<>'' then lex (InCmp c) cs
      else if c \<in> set ''(),?=*'' then map_option ((#) (Op [c])) (lex Idle cs)
      else None)"
| "lex (InWord w) (c # cs) =
     (if is_ident c then lex (InWord (w @ [c])) cs
      else map_option ((#) (Word w)) (lex Idle (c # cs)))"
| "lex (InQuoted q) (c # cs) =
     (if c = CHR 0x22 then lex (QuoteSeen q) cs else lex (InQuoted (q @ [c])) cs)"
| "lex (QuoteSeen q) (c # cs) =
     (if c = CHR 0x22 then lex (InQuoted (q @ [c])) cs
      else map_option ((#) (Quoted q)) (lex Idle (c # cs)))"
| "lex (InCmp x) (c # cs) =
     (if c = CHR ''='' then map_option ((#) (Op [x, c])) (lex Idle cs)
      else map_option ((#) (Op [x])) (lex Idle (c # cs)))"
  by pat_completeness auto
termination
  by (relation "measures [\<lambda>(st, cs). length cs, \<lambda>(st, cs). (if st = Idle then 0 else 1)]") auto



















subsection \<open>Running the prepared statements\<close>

text \<open>
  The statements run on the table of the given name. \<open>INSERT\<close> converts the key to the
  affinity of the declared type of the column \<open>key\<close>, refuses a NULL in a column declared
  \<open>NOT NULL\<close> and a second row with the same primary key \<open>(key, sequence)\<close>, and puts
  the row at its place in primary-key order. The \<open>SELECT\<close>s compare the column with
  the converted parameters; a comparison with NULL is never true.
\<close>

definition key_column :: "sql_table \<Rightarrow> sql_column option" where
  "key_column tbl = find (\<lambda>c. fold_name (column_name c) = ''key'') (table_columns tbl)"

definition host_insert :: "host \<Rightarrow> sqlite3 \<Rightarrow> string \<Rightarrow> sql_row \<Rightarrow> sqlite_rc \<times> sqlite3" where
  "host_insert h db name r =
     (case db (fold_name name) of
        None \<Rightarrow> (SQLITE_ERROR, db)
      | Some tbl \<Rightarrow>
          (case key_column tbl of
             None \<Rightarrow> (SQLITE_ERROR, db)
           | Some kc \<Rightarrow>
               let r' = r\<lparr>col_key := apply_affinity h (column_type kc) (col_key r)\<rparr> in
               if column_not_null kc \<and> col_key r' = SqlNull then (SQLITE_CONSTRAINT, db)
               else if map fold_name (table_primary_key tbl) = [''key'', ''sequence''] \<and>
                       (\<exists>x \<in> set (table_rows tbl).
                          sql_compare (col_key x) (col_key r') = 0 \<and>
                          col_sequence x = col_sequence r')
               then (SQLITE_CONSTRAINT, db)
               else (SQLITE_DONE,
                     db(fold_name name \<mapsto> tbl\<lparr>table_rows := pk_insert r' (table_rows tbl)\<rparr>))))"

definition host_select_eq :: "host \<Rightarrow> sqlite3 \<Rightarrow> string \<Rightarrow> sql_value \<Rightarrow> sql_row list" where
  "host_select_eq h db name v =
     (case db (fold_name name) of
        None \<Rightarrow> []
      | Some tbl \<Rightarrow>
          (case key_column tbl of
             None \<Rightarrow> []
           | Some kc \<Rightarrow>
               let p = apply_affinity h (column_type kc) v in
               if p = SqlNull then []
               else filter (\<lambda>r. col_key r \<noteq> SqlNull \<and> sql_compare (col_key r) p = 0)
                      (table_rows tbl)))"

definition host_select_range ::
  "host \<Rightarrow> sqlite3 \<Rightarrow> string \<Rightarrow> sql_value \<Rightarrow> sql_value \<Rightarrow> sql_row list" where
  "host_select_range h db name lo hi =
     (case db (fold_name name) of
        None \<Rightarrow> []
      | Some tbl \<Rightarrow>
          (case key_column tbl of
             None \<Rightarrow> []
           | Some kc \<Rightarrow>
               let p = apply_affinity h (column_type kc) lo;
                   q = apply_affinity h (column_type kc) hi
               in if p = SqlNull \<or> q = SqlNull then []
                  else filter (\<lambda>r. col_key r \<noteq> SqlNull \<and> 0 \<le> sql_compare (col_key r) p \<and>
                                    sql_compare (col_key r) q \<le> 0)
                         (table_rows tbl)))"

definition host_select_all :: "sqlite3 \<Rightarrow> string \<Rightarrow> sql_row list" where
  "host_select_all db name =
     (case db (fold_name name) of None \<Rightarrow> [] | Some tbl \<Rightarrow> table_rows tbl)"

definition host_delete_all :: "sqlite3 \<Rightarrow> string \<Rightarrow> sqlite_rc \<times> sqlite3" where
  "host_delete_all db name =
     (case db (fold_name name) of
        None \<Rightarrow> (SQLITE_ERROR, db)
      | Some tbl \<Rightarrow> (SQLITE_DONE, db(fold_name name \<mapsto> tbl\<lparr>table_rows := []\<rparr>)))"

subsection \<open>SqliteIndex\<close>

text \<open>
  The object holds the table name, the key type and its own entry counter; the database
  connection \<open>db_\<close> is shared with the rest of the program, so the database is passed
  to every operation and returned by it, also when the operation throws.
\<close>

record SqliteIndex =
  indexTableName :: string
  indexKeyType :: ValueType
  indexEntryCount :: nat

datatype sqlite_failure =
    FailedToCreateIndexTable
  | FailedToPrepareInsert | FailedToPrepareSearch | FailedToPrepareSearchFirst
  | FailedToPrepareRange | FailedToPrepareAll | FailedToPrepareCount | FailedToPrepareClear
  | FailedToInsertIndexEntry | FailedToClearIndex













text \<open>
  \<open>bindKey\<close>: \<open>sqlite3_bind_int\<close> takes an \<open>int\<close>, so the 32-bit alternatives are
  converted with \<open>static_cast<int>\<close> and then widened with their sign;
  \<open>sqlite3_bind_double\<close> binds NULL for a NaN; \<open>sqlite3_bind_text\<close> is given the
  length, so the text keeps its NUL bytes; \<open>sqlite3_bind_blob\<close> is given the vector's
  data pointer, which is null for an empty vector, and binds NULL for a null pointer.
\<close>

definition sqlite3_bind_double :: "ieee \<Rightarrow> sql_value" where
  "sqlite3_bind_double f = (if f = NaN then SqlNull else SqlReal f)"

fun bindKey :: "Value \<Rightarrow> sql_value" where
  "bindKey VNull = SqlNull"
| "bindKey (VBool b) = SqlInteger (if b then 1 else 0)"
| "bindKey (VInt8 p) = SqlInteger (scast p)"
| "bindKey (VInt16 p) = SqlInteger (scast p)"
| "bindKey (VInt32 p) = SqlInteger (scast p)"
| "bindKey (VInt64 p) = SqlInteger p"
| "bindKey (VUInt8 p) = SqlInteger (ucast p)"
| "bindKey (VUInt16 p) = SqlInteger (ucast p)"
| "bindKey (VUInt32 p) = SqlInteger (scast p)"
| "bindKey (VUInt64 p) = SqlInteger p"
| "bindKey (VFloat32 f) = sqlite3_bind_double f"
| "bindKey (VFloat64 f) = sqlite3_bind_double f"
| "bindKey (VString s) = SqlText s"
| "bindKey (VBytes b) = (if b = [] then SqlNull else SqlBlob b)"

text \<open>
  \<open>sqlite3_column_int\<close> is the low 32 bits of \<open>sqlite3_column_int64\<close>.
  \<open>sqlite3_column_text\<close> returns a null pointer for NULL and otherwise a C string, of
  which \<open>std::string(text)\<close> takes the bytes before the first NUL;
  \<open>sqlite3_column_blob\<close> returns a null pointer for NULL.
\<close>

definition column_int :: "host \<Rightarrow> sql_value \<Rightarrow> 32 word" where
  "column_int h v = ucast (column_int64 h v)"

fun extractKey :: "host \<Rightarrow> ValueType \<Rightarrow> sql_value \<Rightarrow> Value" where
  "extractKey h Int8 v = VInt8 (ucast (column_int h v))"
| "extractKey h Int16 v = VInt16 (ucast (column_int h v))"
| "extractKey h Int32 v = VInt32 (column_int h v)"
| "extractKey h Int64 v = VInt64 (column_int64 h v)"
| "extractKey h UInt8 v = VUInt8 (ucast (column_int h v))"
| "extractKey h UInt16 v = VUInt16 (ucast (column_int h v))"
| "extractKey h UInt32 v = VUInt32 (column_int h v)"
| "extractKey h UInt64 v = VUInt64 (column_int64 h v)"
| "extractKey h Float32 v = VFloat32 (column_double h v)"
| "extractKey h Float64 v = VFloat64 (column_double h v)"
| "extractKey h String v = VString (if v = SqlNull then [] else c_str (column_text h v))"
| "extractKey h Bool v = VBool (column_int h v \<noteq> 0)"
| "extractKey h Bytes v = VBytes (if v = SqlNull then [] else column_blob h v)"
| "extractKey h Null v = VNull"

definition extractEntry :: "host \<Rightarrow> ValueType \<Rightarrow> sql_row \<Rightarrow> IndexEntry" where
  "extractEntry h kt r =
     \<lparr>key = extractKey h kt (col_key r),
      dataOffset = col_data_offset r,
      dataLength = ucast (col_data_length r),
      sequence = col_sequence r\<rparr>"

definition SqliteIndex_insert ::
  "host \<Rightarrow> sqlite3 \<Rightarrow> SqliteIndex \<Rightarrow> Value \<Rightarrow> 64 word \<Rightarrow> 32 word \<Rightarrow> 64 word
     \<Rightarrow> (sqlite_failure + SqliteIndex) \<times> sqlite3" where
  "SqliteIndex_insert h db idx k off len seq =
     (let r = \<lparr>col_key = bindKey k, col_data_offset = off, col_data_length = scast len,
               col_sequence = seq\<rparr>;
          (rc, db') = host_insert h db (indexTableName idx) r
      in if rc \<noteq> SQLITE_DONE then (Inl FailedToInsertIndexEntry, db')
         else (Inr (idx\<lparr>indexEntryCount := indexEntryCount idx + 1\<rparr>), db'))"

definition SqliteIndex_search ::
  "host \<Rightarrow> sqlite3 \<Rightarrow> SqliteIndex \<Rightarrow> Value \<Rightarrow> IndexEntry list" where
  "SqliteIndex_search h db idx k =
     map (extractEntry h (indexKeyType idx)) (host_select_eq h db (indexTableName idx) (bindKey k))"

definition SqliteIndex_searchFirst ::
  "host \<Rightarrow> sqlite3 \<Rightarrow> SqliteIndex \<Rightarrow> Value \<Rightarrow> IndexEntry option" where
  "SqliteIndex_searchFirst h db idx k =
     (case host_select_eq h db (indexTableName idx) (bindKey k) of
        [] \<Rightarrow> None
      | r # _ \<Rightarrow> Some (extractEntry h (indexKeyType idx) r))"

definition SqliteIndex_range ::
  "host \<Rightarrow> sqlite3 \<Rightarrow> SqliteIndex \<Rightarrow> Value \<Rightarrow> Value \<Rightarrow> IndexEntry list" where
  "SqliteIndex_range h db idx minKey maxKey =
     map (extractEntry h (indexKeyType idx))
       (host_select_range h db (indexTableName idx) (bindKey minKey) (bindKey maxKey))"

definition SqliteIndex_all :: "host \<Rightarrow> sqlite3 \<Rightarrow> SqliteIndex \<Rightarrow> IndexEntry list" where
  "SqliteIndex_all h db idx =
     map (extractEntry h (indexKeyType idx)) (host_select_all db (indexTableName idx))"

definition SqliteIndex_clear ::
  "sqlite3 \<Rightarrow> SqliteIndex \<Rightarrow> (sqlite_failure + SqliteIndex) \<times> sqlite3" where
  "SqliteIndex_clear db idx =
     (let (rc, db') = host_delete_all db (indexTableName idx)
      in if rc \<noteq> SQLITE_DONE then (Inl FailedToClearIndex, db')
         else (Inr (idx\<lparr>indexEntryCount := 0\<rparr>), db'))"



section \<open>The tree that a store represents\<close>

text \<open>
  The proofs read the nodes reachable from a node id as a tree. \<open>view\<close> is what the
  algorithms read of a node (\<open>parentId\<close> is written but never read); \<open>repr t T\<close>
  says that the store of \<open>t\<close> holds the tree \<open>T\<close> at the ids that \<open>T\<close> names.
\<close>

datatype atree = ANode (aid: nat) (aleaf: bool) (aents: "IndexEntry list") (akids: "atree list")

definition core :: "BTreeNode \<Rightarrow> bool \<times> IndexEntry list \<times> nat list" where
  "core n = (isLeaf n, entries n, children n)"

definition view :: "BTree \<Rightarrow> nat \<Rightarrow> (bool \<times> IndexEntry list \<times> nat list) option" where
  "view t i = map_option core (nodes t i)"

fun repr :: "BTree \<Rightarrow> atree \<Rightarrow> bool" where
  "repr t (ANode i l es ks) =
     (view t i = Some (l, es, map aid ks) \<and> (\<forall>k \<in> set ks. repr t k))"

fun ids :: "atree \<Rightarrow> nat list" where
  "ids (ANode i l es ks) = i # concat (map ids ks)"

text \<open>A leaf has no children; an internal node has one child more than entries.\<close>

fun shape :: "atree \<Rightarrow> bool" where
  "shape (ANode i l es ks) =
     ((if l then ks = [] else length ks = length es + 1) \<and> (\<forall>k \<in> set ks. shape k))"

fun height :: "atree \<Rightarrow> nat" where
  "height (ANode i l es ks) = Suc (Max (insert 0 (height ` set ks)))"

fun interleave :: "'a list list \<Rightarrow> 'a list \<Rightarrow> 'a list" where
  "interleave (k # ks) (e # es) = k @ e # interleave ks es"
| "interleave [] es = es"
| "interleave ks [] = concat ks"

fun inorder :: "atree \<Rightarrow> IndexEntry list" where
  "inorder (ANode i l es ks) = interleave (map inorder ks) es"

text \<open>
  The invariant of a tree object: its store represents a well-shaped tree at \<open>rootId\<close>
  without shared nodes, every id in use is below \<open>nextNodeId\<close>, and the tree is no
  higher than the number of entries plus one.
\<close>

definition tree_inv :: "BTree \<Rightarrow> atree \<Rightarrow> bool" where
  "tree_inv t T =
     (repr t T \<and> aid T = rootId t \<and> shape T \<and> distinct (ids T) \<and>
      (\<forall>i \<in> set (ids T). i < nextNodeId t) \<and> (\<forall>j. nextNodeId t \<le> j \<longrightarrow> view t j = None) \<and>
      length (inorder T) = entryCount t \<and> height T \<le> entryCount t + 1)"

text \<open>Splitting the \<open>i\<close>-th child of a node at position \<open>m\<close>, with \<open>sid\<close> the new sibling.\<close>

definition split_left :: "nat \<Rightarrow> atree \<Rightarrow> atree" where
  "split_left m C = ANode (aid C) (aleaf C) (take m (aents C)) (take (Suc m) (akids C))"

definition split_right :: "nat \<Rightarrow> nat \<Rightarrow> atree \<Rightarrow> atree" where
  "split_right m sid C = ANode sid (aleaf C) (drop (Suc m) (aents C)) (drop (Suc m) (akids C))"

definition split_at :: "nat \<Rightarrow> nat \<Rightarrow> nat \<Rightarrow> atree \<Rightarrow> atree" where
  "split_at m sid i P =
     ANode (aid P) (aleaf P)
       (take i (aents P) @ aents (akids P ! i) ! m # drop i (aents P))
       (take i (akids P) @ split_left m (akids P ! i) # split_right m sid (akids P ! i)
          # drop (Suc i) (akids P))"

text \<open>
  The order on entries that the tree maintains, and the sets of keys on which
  \<open>compareValues\<close> is transitive.
\<close>

definition key_le :: "IndexEntry \<Rightarrow> IndexEntry \<Rightarrow> bool" where
  "key_le x y = (compareValues (key x) (key y) \<le> 0)"

definition consistent :: "Value set \<Rightarrow> bool" where
  "consistent K =
     (\<forall>a \<in> K. \<forall>b \<in> K. \<forall>c \<in> K.
        compareValues a b \<le> 0 \<and> compareValues b c \<le> 0 \<longrightarrow> compareValues a c \<le> 0)"

text \<open>
  \<open>ys\<close> is \<open>xs\<close> with \<open>e\<close> put in at one place; if \<open>xs\<close> is ordered by key and
  the keys come from a set on which the comparison is transitive, the place respects the
  order.
\<close>

definition ordered_ins :: "Value set \<Rightarrow> IndexEntry \<Rightarrow> IndexEntry list \<Rightarrow> IndexEntry list \<Rightarrow> bool" where
  "ordered_ins K e xs ys =
     (\<exists>a b. xs = a @ b \<and> ys = a @ e # b \<and>
        (consistent K \<and> key e \<in> K \<and> key ` set xs \<subseteq> K \<and> sorted_wrt key_le xs \<longrightarrow>
           (\<forall>x \<in> set a. key_le x e) \<and> (\<forall>y \<in> set b. key_le e y)))"

definition ins_pre :: "BTree \<Rightarrow> atree \<Rightarrow> bool" where
  "ins_pre t T =
     (repr t T \<and> shape T \<and> distinct (ids T) \<and> (\<forall>i \<in> set (ids T). i < nextNodeId t) \<and>
      (\<forall>j. nextNodeId t \<le> j \<longrightarrow> view t j = None) \<and> 2 \<le> order t)"

definition ins_post :: "Value set \<Rightarrow> IndexEntry \<Rightarrow> BTree \<Rightarrow> atree \<Rightarrow> BTree \<Rightarrow> atree \<Rightarrow> bool" where
  "ins_post K e t T t' T' =
     (ins_pre t' T' \<and> aid T' = aid T \<and>
      set (ids T) \<subseteq> set (ids T') \<and>
      set (ids T') \<subseteq> set (ids T) \<union> {nextNodeId t ..< nextNodeId t'} \<and>
      nextNodeId t \<le> nextNodeId t' \<and>
      (\<forall>j. j \<notin> set (ids T) \<longrightarrow> j < nextNodeId t \<longrightarrow> view t' j = view t j) \<and>
      order t' = order t \<and> rootId t' = rootId t \<and> entryCount t' = entryCount t \<and>
      keyType t' = keyType t \<and>
      height T' \<le> height T \<and> ordered_ins K e (inorder T) (inorder T'))"

text \<open>
  The range scan read on the tree: \<open>aloop\<close> is the loop of \<open>rangeSearch\<close> over the
  entries that are left and the children from the current position on, followed by the
  visit of the child after the last entry when the loop ran to the end.
\<close>

fun arange :: "Value \<Rightarrow> Value \<Rightarrow> atree \<Rightarrow> IndexEntry list \<Rightarrow> IndexEntry list"
  and aloop ::
    "Value \<Rightarrow> Value \<Rightarrow> bool \<Rightarrow> IndexEntry list \<Rightarrow> atree list \<Rightarrow> IndexEntry list \<Rightarrow> IndexEntry list"
  where
  "arange lo hi (ANode i l es ks) acc = aloop lo hi l es ks acc"
| "aloop lo hi l [] [] acc = acc"
| "aloop lo hi l [] (k # ks) acc = (if l then acc else arange lo hi k acc)"
| "aloop lo hi l (e # es) [] acc =
     (let acc2 = (if 0 \<le> compareValues (key e) lo \<and> compareValues (key e) hi \<le> 0
                  then acc @ [e] else acc)
      in if 0 < compareValues (key e) hi then acc2 else aloop lo hi l es [] acc2)"
| "aloop lo hi l (e # es) (k # ks) acc =
     (let acc1 = (if \<not> l \<and> 0 \<le> compareValues (key e) lo then arange lo hi k acc else acc);
          acc2 = (if 0 \<le> compareValues (key e) lo \<and> compareValues (key e) hi \<le> 0
                  then acc1 @ [e] else acc1)
      in if 0 < compareValues (key e) hi then acc2 else aloop lo hi l es ks acc2)"

definition in_range :: "Value \<Rightarrow> Value \<Rightarrow> IndexEntry \<Rightarrow> bool" where
  "in_range lo hi e = (0 \<le> compareValues (key e) lo \<and> compareValues (key e) hi \<le> 0)"

section \<open>Properties of compareValues\<close>

lemma S_compare_sign:
  "(S_compare n m < 0 \<longleftrightarrow> n < m) \<and> (S_compare n m = 0 \<longleftrightarrow> n = m) \<and> (0 < S_compare n m \<longleftrightarrow> m < n)"
  by (auto simp: S_compare_def INT_MAX_def INT_MIN_def Let_def)

lemma string_compare_Cons_same: "string_compare (x # xs) (x # ys) = string_compare xs ys"
  by (simp add: string_compare_def S_compare_def Let_def)

lemma string_compare_Cons_diff:
  "x \<noteq> y \<Longrightarrow> string_compare (x # xs) (y # ys) = int (of_char x) - int (of_char y)"
  by (simp add: string_compare_def)

lemma string_compare_neg: "string_compare s t < 0 \<longleftrightarrow> (s, t) \<in> lexord byte_less"
proof (induction s t rule: traits_compare.induct)
  case (1 x xs y ys)
  show ?case
  proof (cases "x = y")
    case True
    with 1 show ?thesis by (simp add: string_compare_Cons_same byte_less_def)
  next
    case False
    then show ?thesis by (auto simp add: string_compare_Cons_diff byte_less_def)
  qed
next
  case (2 t)
  show ?case using S_compare_sign [of 0 "length t"] by (cases t) (simp_all add: string_compare_def)
next
  case (3 x xs)
  show ?case using S_compare_sign [of "length (x # xs)" 0] by (simp add: string_compare_def)
qed

lemma string_compare_zero: "string_compare s t = 0 \<longleftrightarrow> s = t"
proof (induction s t rule: traits_compare.induct)
  case (1 x xs y ys)
  show ?case
  proof (cases "x = y")
    case True
    with 1 show ?thesis by (simp add: string_compare_Cons_same)
  next
    case False
    then show ?thesis by (auto simp add: string_compare_Cons_diff)
  qed
next
  case (2 t)
  show ?case using S_compare_sign [of 0 "length t"] by (cases t) (auto simp add: string_compare_def)
next
  case (3 x xs)
  show ?case using S_compare_sign [of "length (x # xs)" 0] by (auto simp add: string_compare_def)
qed

lemma traits_compare_Nil_right: "traits_compare t [] = 0"
  by (cases t) simp_all

lemma traits_compare_flip: "traits_compare t s = - traits_compare s t"
  by (induction s t rule: traits_compare.induct) (auto simp add: traits_compare_Nil_right)

lemma string_compare_flip: "string_compare t s < 0 \<longleftrightarrow> 0 < string_compare s t"
  using S_compare_sign [of "length s" "length t"] S_compare_sign [of "length t" "length s"]
    traits_compare_flip [of t s]
  by (auto simp add: string_compare_def Let_def)

lemma blob_compare_range: "blob_compare xs ys \<in> {- 1, 0, 1}"
  by (induction xs ys rule: blob_compare.induct) auto

lemma compareValues_not_strings:
  "\<not> (is_string a \<and> is_string b) \<Longrightarrow> compareValues a b \<in> {- 1, 0, 1}"
  using blob_compare_range [of "get_bytes a" "get_bytes b"]
  by (auto simp add: compareValues_def Let_def)

lemma compareValues_strings: "compareValues (VString s) (VString u) = string_compare s u"
  by (simp add: compareValues_def)

text \<open>
  Claim C2, as stated, fails: for two Strings \<open>compareValues\<close> hands back the result of
  \<open>std::string::compare\<close>, here the difference of the two lengths.
\<close>

theorem compareValues_strings_counterexample:
  "compareValues (VString ''a'') (VString ''abc'') = - 2 \<and>
   compareValues (VString ''a'') (VString ''abc'') \<notin> {- 1, 0, 1}"
  by (simp add: compareValues_def string_compare_def S_compare_def INT_MAX_def INT_MIN_def)

text \<open>
  Claim C2, amended: \<open>compareValues a b\<close> is one of \<open>-1\<close>, \<open>0\<close>, \<open>1\<close> for every pair
  of Values that are not both Strings; for two Strings it is negative, zero or positive
  according to the lexicographic order of their bytes, and its magnitude is not limited
  to 1.
\<close>

theorem compareValues_result:
  "(\<not> (is_string a \<and> is_string b) \<longrightarrow> compareValues a b \<in> {- 1, 0, 1}) \<and>
   (compareValues (VString s) (VString u) < 0 \<longleftrightarrow> (s, u) \<in> lexord byte_less) \<and>
   (compareValues (VString s) (VString u) = 0 \<longleftrightarrow> s = u) \<and>
   (0 < compareValues (VString s) (VString u) \<longleftrightarrow> (u, s) \<in> lexord byte_less)"
  using compareValues_not_strings [of a b] string_compare_neg [of s u] string_compare_zero [of s u]
    string_compare_neg [of u s] string_compare_flip [of u s]
  by (simp add: compareValues_strings)

theorem compareValues_result_witness:
  "\<not> (is_string (VInt32 3) \<and> is_string (VString ''x'')) \<and>
   compareValues (VInt32 3) (VString ''x'') \<in> {- 1, 0, 1} \<and>
   compareValues (VString ''a'') (VString ''abc'') < 0"
  using compareValues_result [of "VInt32 3" "VString ''x''" "''a''" "''abc''"]
  by simp

lemma sint64_uint: "sint (p :: 64 word) = (if uint p < 2 ^ 63 then uint p else uint p - 2 ^ 64)"
proof -
  have u: "uint p = sint p mod 2 ^ 64"
    by (simp add: uint_sint take_bit_eq_mod)
  have lo: "- (2 ^ 63) \<le> sint p" and hi: "sint p < 2 ^ 63"
    using sint_ge [of p] sint_lt [of p] by simp_all
  show ?thesis
  proof (cases "0 \<le> sint p")
    case True
    with hi have "sint p mod 2 ^ 64 = sint p" by (simp add: mod_pos_pos_trivial)
    with u hi show ?thesis by simp
  next
    case False
    have "(sint p + 2 ^ 64) mod 2 ^ 64 = sint p + 2 ^ 64"
      by (rule mod_pos_pos_trivial) (use lo False in simp_all)
    then have "sint p mod 2 ^ 64 = sint p + 2 ^ 64" by simp
    with u lo False show ?thesis by simp
  qed
qed

lemma sint_ucast8: "sint (ucast (p :: 8 word) :: 64 word) = uint p"
  using uint_lt2p [of p] by (simp add: sint64_uint uint_up_ucast is_up)

lemma sint_ucast16: "sint (ucast (p :: 16 word) :: 64 word) = uint p"
  using uint_lt2p [of p] by (simp add: sint64_uint uint_up_ucast is_up)

lemma sint_ucast32: "sint (ucast (p :: 32 word) :: 64 word) = uint p"
  using uint_lt2p [of p] by (simp add: sint64_uint uint_up_ucast is_up)

lemma sint_scast8: "sint (scast (p :: 8 word) :: 64 word) = sint p"
  by (simp add: sint_up_scast is_up)

lemma sint_scast16: "sint (scast (p :: 16 word) :: 64 word) = sint p"
  by (simp add: sint_up_scast is_up)

lemma sint_scast32: "sint (scast (p :: 32 word) :: 64 word) = sint p"
  by (simp add: sint_up_scast is_up)

lemma tryGetInt64_view:
  assumes "int64_view a = Some x"
  shows "\<exists>p. tryGetInt64 a = Some p \<and> sint p = x"
proof (cases a)
  case (VUInt64 w)
  then show ?thesis using assms sint64_uint [of w] by auto
qed (use assms in \<open>auto simp add: sint_scast8 sint_scast16 sint_scast32 sint_ucast8
      sint_ucast16 sint_ucast32\<close>)

lemma compareValues_ints:
  assumes "tryGetInt64 a = Some p" "tryGetInt64 b = Some q"
  shows "compareValues a b = (if sint p < sint q then - 1 else if sint q < sint p then 1 else 0)"
proof -
  from assms(1) have a: "\<not> is_monostate a" by (cases a) simp_all
  from assms(2) have b: "\<not> is_monostate b" by (cases b) simp_all
  from a b assms show ?thesis by (simp add: compareValues_def)
qed

lemma compareValues_Null_left: "compareValues VNull b = (if b = VNull then 0 else - 1)"
  by (cases b) (simp_all add: compareValues_def)

lemma compareValues_Null_right: "b \<noteq> VNull \<Longrightarrow> compareValues b VNull = 1"
  by (cases b) (simp_all add: compareValues_def)

text \<open>
  Claim C7: Null is strictly below every non-null Value and two Nulls are equal; two
  integer alternatives of any width and signedness are compared by their values as signed
  64-bit integers, where a \<open>uint64_t\<close> above \<open>INT64_MAX\<close> counts as the negative value
  it wraps to.
\<close>

theorem compareValues_null_and_integers:
  "compareValues VNull VNull = 0 \<and>
   (b \<noteq> VNull \<longrightarrow> compareValues VNull b = - 1 \<and> compareValues b VNull = 1) \<and>
   (int64_view a = Some x \<and> int64_view c = Some y \<longrightarrow>
      compareValues a c = (if x < y then - 1 else if y < x then 1 else 0)) \<and>
   (2 ^ 63 \<le> uint w \<longrightarrow>
      int64_view (VUInt64 w) = Some (uint w - 2 ^ 64) \<and> uint w - 2 ^ 64 < 0)"
proof (intro conjI impI)
  show "compareValues VNull VNull = 0" by (simp add: compareValues_Null_left)
next
  assume "b \<noteq> VNull"
  then show "compareValues VNull b = - 1" by (simp add: compareValues_Null_left)
next
  assume "b \<noteq> VNull"
  then show "compareValues b VNull = 1" by (rule compareValues_Null_right)
next
  assume h: "int64_view a = Some x \<and> int64_view c = Some y"
  then obtain p q where "tryGetInt64 a = Some p" "sint p = x" "tryGetInt64 c = Some q" "sint q = y"
    using tryGetInt64_view by blast
  then show "compareValues a c = (if x < y then - 1 else if y < x then 1 else 0)"
    using compareValues_ints by blast
next
  assume "2 ^ 63 \<le> uint w"
  then show "int64_view (VUInt64 w) = Some (uint w - 2 ^ 64)" by simp
next
  show "uint w - 2 ^ 64 < 0" using uint_lt2p [of w] by simp
qed

theorem compareValues_null_and_integers_witness:
  "VBool False \<noteq> VNull \<and> compareValues VNull (VBool False) = - 1 \<and>
   compareValues (VBool False) VNull = 1 \<and>
   int64_view (VUInt64 18446744073709551615) = Some (- 1) \<and> int64_view (VInt8 0) = Some 0 \<and>
   compareValues (VUInt64 18446744073709551615) (VInt8 0) = - 1 \<and>
   (2 :: int) ^ 63 \<le> uint (18446744073709551615 :: 64 word)"
proof -
  have v: "int64_view (VUInt64 18446744073709551615) = Some (- 1)" by simp
  have z: "int64_view (VInt8 0) = Some 0" by simp
  have u: "(2 :: int) ^ 63 \<le> uint (18446744073709551615 :: 64 word)" by simp
  from v z u show ?thesis
    using compareValues_null_and_integers [where a = "VUInt64 18446744073709551615"
        and b = "VBool False" and c = "VInt8 0" and x = "- 1" and y = 0
        and w = 18446744073709551615]
    by simp
qed

subsection \<open>The sign of the comparison is antisymmetric\<close>

lemma double_less_asym: "double_less x y \<Longrightarrow> \<not> double_less y x"
  by (cases x; cases y) simp_all

lemma blob_compare_flip: "blob_compare ys xs < 0 \<longleftrightarrow> 0 < blob_compare xs ys"
  by (induction xs ys rule: blob_compare.induct) auto

lemma index_eq_same_kind:
  assumes "index a = index b" and "\<not> is_monostate a"
  shows "tryGetInt64 a \<noteq> None \<and> tryGetInt64 b \<noteq> None \<or>
         tryGetDouble a \<noteq> None \<and> tryGetDouble b \<noteq> None \<or>
         is_string a \<and> is_string b \<or> is_bytes a \<and> is_bytes b \<or> is_bool a \<and> is_bool b"
  using assms by (cases a; cases b; simp)

lemma three_way_flip:
  "\<not> (p \<and> q) \<Longrightarrow>
   ((if q then - 1 else if p then 1 else (0::int)) < 0) = (0 < (if p then - 1 else if q then 1 else (0::int)))"
  by auto

lemma compareValues_both_ints:
  "tryGetInt64 a = Some x \<Longrightarrow> tryGetInt64 b = Some y \<Longrightarrow>
   compareValues a b = (if sint x < sint y then - 1 else if sint y < sint x then 1 else 0)"
  by (cases a; cases b) (simp_all add: compareValues_def Let_def)

lemma compareValues_both_doubles:
  "tryGetInt64 a = None \<or> tryGetInt64 b = None \<Longrightarrow>
   tryGetDouble a = Some x \<Longrightarrow> tryGetDouble b = Some y \<Longrightarrow>
   compareValues a b = (if double_less x y then - 1 else if double_less y x then 1 else 0)"
  by (cases a; cases b) (simp_all add: compareValues_def Let_def)

lemma compareValues_by_index:
  "\<not> is_monostate a \<Longrightarrow> \<not> is_monostate b \<Longrightarrow>
   tryGetDouble a = None \<or> tryGetDouble b = None \<Longrightarrow> index a \<noteq> index b \<Longrightarrow>
   compareValues a b = (if index a < index b then - 1 else 1)"
  by (cases a; cases b) (simp_all add: compareValues_def Let_def)

lemma compareValues_flip: "compareValues b a < 0 \<longleftrightarrow> 0 < compareValues a b"
proof (cases "is_monostate a \<or> is_monostate b")
  case True
  then show ?thesis by (auto simp add: compareValues_def)
next
  case nn: False
  show ?thesis
  proof (cases "tryGetInt64 a \<noteq> None \<and> tryGetInt64 b \<noteq> None")
    case True
    then obtain x y where "tryGetInt64 a = Some x" "tryGetInt64 b = Some y" by auto
    then show ?thesis
      by (simp only: compareValues_both_ints [of a x b y] compareValues_both_ints [of b y a x])
        (rule three_way_flip, simp)
  next
    case ni: False
    show ?thesis
    proof (cases "tryGetDouble a \<noteq> None \<and> tryGetDouble b \<noteq> None")
      case True
      then obtain x y where xy: "tryGetDouble a = Some x" "tryGetDouble b = Some y" by auto
      from ni have ni': "tryGetInt64 a = None \<or> tryGetInt64 b = None"
        and ni'': "tryGetInt64 b = None \<or> tryGetInt64 a = None" by auto
      show ?thesis
        by (simp only: compareValues_both_doubles [OF ni' xy] compareValues_both_doubles [OF ni'' xy(2,1)])
          (rule three_way_flip, use double_less_asym in blast)
    next
      case nd: False
      then have nd': "tryGetDouble a = None \<or> tryGetDouble b = None"
        and nd'': "tryGetDouble b = None \<or> tryGetDouble a = None" by auto
      show ?thesis
      proof (cases "index a = index b")
        case True
        from index_eq_same_kind [OF True] nn ni nd
        consider "is_string a \<and> is_string b" | "is_bytes a \<and> is_bytes b" | "is_bool a \<and> is_bool b"
          by blast
        then show ?thesis
        proof cases
          case 1
          then obtain s u where "a = VString s" "b = VString u" by (cases a; cases b) auto
          then show ?thesis
            using string_compare_flip [of u s] by (simp add: compareValues_def)
        next
          case 2
          then obtain x y where "a = VBytes x" "b = VBytes y" by (cases a; cases b) auto
          then show ?thesis
            using blob_compare_flip [of y x] by (simp add: compareValues_def)
        next
          case 3
          then obtain x y where "a = VBool x" "b = VBool y" by (cases a; cases b) auto
          then show ?thesis by (auto simp add: compareValues_def Let_def)
        qed
      next
        case False
        from nn have na: "\<not> is_monostate a" and nb: "\<not> is_monostate b" by auto
        from False have F': "index b \<noteq> index a" by simp
        show ?thesis
          using False
          by (simp only: compareValues_by_index [OF na nb nd' False]
              compareValues_by_index [OF nb na nd'' F']) auto
      qed
    qed
  qed
qed

lemma compareValues_total: "\<not> compareValues a b < 0 \<Longrightarrow> compareValues b a \<le> 0"
  using compareValues_flip [of a b] by simp

lemma compareValues_total': "0 < compareValues a b \<Longrightarrow> compareValues b a \<le> 0"
  using compareValues_flip [of b a] by simp

section \<open>Properties of SqliteIndex\<close>

subsection \<open>The statements of the constructor, as the engine reads them\<close>





















section \<open>Reading and writing the store\<close>

lemma view_getNode:
  "view t i = Some (l, es, cs) \<Longrightarrow>
     \<exists>n. getNode t i = Inr n \<and> isLeaf n = l \<and> entries n = es \<and> children n = cs"
  by (auto simp add: view_def getNode_def core_def split: option.splits)

lemma getNode_view: "getNode t i = Inr n \<Longrightarrow> view t i = Some (isLeaf n, entries n, children n)"
  by (auto simp add: view_def getNode_def core_def split: option.splits)

lemma getNode_None: "view t i = None \<Longrightarrow> getNode t i = Inl (NodeNotFound i)"
  by (auto simp add: view_def getNode_def split: option.splits)

lemma view_modifyNode:
  assumes "\<And>n. core (f n) = F (core n)"
  shows "view (modifyNode t nid f) j = (if j = nid then map_option F (view t j) else view t j)"
  using assms by (auto simp add: view_def modifyNode_def split: option.splits)

lemma modifyNode_fields [simp]:
  "nextNodeId (modifyNode t nid f) = nextNodeId t"
  "order (modifyNode t nid f) = order t"
  "rootId (modifyNode t nid f) = rootId t"
  "entryCount (modifyNode t nid f) = entryCount t"
  "keyType (modifyNode t nid f) = keyType t"
  by (simp_all add: modifyNode_def split: option.splits)

lemma view_modify_parentId [simp]: "view (modifyNode t nid (\<lambda>n. n\<lparr>parentId := x\<rparr>)) = view t"
  by (rule ext) (simp add: view_modifyNode [where F = id] core_def option.map_id)

lemma view_modify_entries:
  "view (modifyNode t nid (\<lambda>n. n\<lparr>entries := g (entries n)\<rparr>)) j =
     (if j = nid then map_option (\<lambda>(l, es, cs). (l, g es, cs)) (view t j) else view t j)"
  by (rule view_modifyNode) (simp add: core_def)

lemma view_modify_children:
  "view (modifyNode t nid (\<lambda>n. n\<lparr>children := g (children n)\<rparr>)) j =
     (if j = nid then map_option (\<lambda>(l, es, cs). (l, es, g cs)) (view t j) else view t j)"
  by (rule view_modifyNode) (simp add: core_def)

lemma view_modify_both:
  "view (modifyNode t nid (\<lambda>n. n\<lparr>entries := a, children := b\<rparr>)) j =
     (if j = nid then map_option (\<lambda>(l, es, cs). (l, a, b)) (view t j) else view t j)"
  by (rule view_modifyNode) (simp add: core_def)

lemma createNode_result:
  "createNode t leaf par = (sid, t') \<Longrightarrow>
     sid = nextNodeId t \<and> nextNodeId t' = nextNodeId t + 1 \<and> order t' = order t \<and>
     rootId t' = rootId t \<and> entryCount t' = entryCount t \<and> keyType t' = keyType t \<and>
     view t' = (view t)(nextNodeId t \<mapsto> (leaf, [], []))"
  by (auto simp add: createNode_def Let_def view_def core_def fun_eq_iff)

lemma moveChildren_view:
  assumes "view t sid = Some (l, ses, scs)" and "\<forall>g \<in> set gs. view t g \<noteq> None"
  shows "\<exists>t'. moveChildren t sid gs = Inr t' \<and> view t' = (view t)(sid \<mapsto> (l, ses, scs @ gs)) \<and>
           nextNodeId t' = nextNodeId t \<and> order t' = order t \<and> rootId t' = rootId t \<and>
           entryCount t' = entryCount t \<and> keyType t' = keyType t"
  using assms
proof (induction gs arbitrary: t scs)
  case Nil
  then show ?case by (auto simp add: fun_eq_iff)
next
  case (Cons g gs)
  define t1 where "t1 = modifyNode t sid (\<lambda>n. n\<lparr>children := children n @ [g]\<rparr>)"
  have v1: "view t1 = (view t)(sid \<mapsto> (l, ses, scs @ [g]))"
    using Cons.prems(1)
    by (auto simp add: t1_def fun_eq_iff view_modify_children [where g = "\<lambda>cs. cs @ [g]"])
  from Cons.prems(2) have "view t1 g \<noteq> None" by (simp add: v1)
  then obtain n where n: "getNode t1 g = Inr n"
    using view_getNode [of t1 g] by (cases "view t1 g") auto
  define t2 where "t2 = modifyNode t1 g (\<lambda>n. n\<lparr>parentId := sid\<rparr>)"
  have v2: "view t2 = view t1" by (simp add: t2_def)
  have s2: "view t2 sid = Some (l, ses, scs @ [g])" by (simp add: v2 v1)
  have g2: "\<forall>g \<in> set gs. view t2 g \<noteq> None" using Cons.prems(2) by (simp add: v2 v1)
  from Cons.IH [OF s2 g2] obtain t' where
    t': "moveChildren t2 sid gs = Inr t'" "view t' = (view t2)(sid \<mapsto> (l, ses, (scs @ [g]) @ gs))"
      "nextNodeId t' = nextNodeId t2" "order t' = order t2" "rootId t' = rootId t2"
      "entryCount t' = entryCount t2" "keyType t' = keyType t2"
    by blast
  have m: "moveChildren t sid (g # gs) = Inr t'"
    using n t'(1) by (simp add: t1_def [symmetric] t2_def [symmetric] Let_def)
  have v: "view t' = (view t)(sid \<mapsto> (l, ses, scs @ g # gs))"
    by (simp add: t'(2) v2 v1)
  have f: "nextNodeId t' = nextNodeId t" "order t' = order t" "rootId t' = rootId t"
      "entryCount t' = entryCount t" "keyType t' = keyType t"
    using t'(3-7) by (simp_all add: t2_def t1_def)
  from m v f show ?case by blast
qed

lemma sdiv_two_nonneg: "0 \<le> a \<Longrightarrow> a sdiv 2 = a div (2 :: int)"
  by (simp add: signed_divide_int_def sgn_if)

lemma view_modify_entries_const:
  "view (modifyNode t nid (\<lambda>n. n\<lparr>entries := a\<rparr>)) j =
     (if j = nid then map_option (\<lambda>(l, es, cs). (l, a, cs)) (view t j) else view t j)"
  by (rule view_modifyNode) (simp add: core_def)

lemma splitChild_view:
  assumes p: "view t p = Some (lp, es, pk)"
    and i: "i < length pk" "pk ! i = c" "i \<le> length es"
    and c: "view t c = Some (l, ces, ck)"
    and pc: "p \<noteq> c"
    and fresh: "view t (nextNodeId t) = None"
    and ord: "2 \<le> order t"
    and m: "m = nat ((order t - 1) div 2)" "m < length ces"
    and gk: "\<not> l \<Longrightarrow> \<forall>g \<in> set (drop (Suc m) ck). view t g \<noteq> None"
  shows "\<exists>t'. splitChild t p (int i) = Inr t' \<and>
     view t' = (view t)
        (nextNodeId t \<mapsto> (l, drop (Suc m) ces, if l then [] else drop (Suc m) ck),
         c \<mapsto> (l, take m ces, if l then ck else take (Suc m) ck),
         p \<mapsto> (lp, take i es @ ces ! m # drop i es,
                 take (Suc i) pk @ nextNodeId t # drop (Suc i) pk)) \<and>
     nextNodeId t' = nextNodeId t + 1 \<and> order t' = order t \<and> rootId t' = rootId t \<and>
     entryCount t' = entryCount t \<and> keyType t' = keyType t"
proof -
  define sid where "sid = nextNodeId t"
  have sp: "sid \<noteq> p" and sc: "sid \<noteq> c" using p c fresh by (auto simp add: sid_def)
  from view_getNode [OF p] obtain parent where
    parent: "getNode t p = Inr parent" "children parent = pk" by blast
  from view_getNode [OF c] obtain child where
    child: "getNode t c = Inr child" "isLeaf child = l" "entries child = ces" "children child = ck"
    by blast
  have mid: "(order t - 1) sdiv 2 = int m" using ord m(1) by (simp add: sdiv_two_nonneg)
  have ci: "elemAtInt (children parent) (int i) = Inr c"
    using i parent(2) by (simp add: elemAtInt_def elemAt_def)
  define t1 where "t1 = snd (createNode t l p)"
  have cn: "createNode t l p = (sid, t1)"
    by (simp add: t1_def sid_def createNode_def Let_def)
  note r1 = createNode_result [OF cn]
  have v1: "view t1 = (view t)(sid \<mapsto> (l, [], []))" using r1 by (simp add: sid_def)
  define t2 where "t2 = modifyNode t1 sid (\<lambda>n. n\<lparr>entries := upperHalf ces (int m)\<rparr>)"
  have v2: "view t2 = (view t)(sid \<mapsto> (l, drop (Suc m) ces, []))"
    by (auto simp add: t2_def view_modify_entries_const v1 upperHalf_def fun_eq_iff nat_add_distrib)
  have me: "elemAtInt ces (int m) = Inr (ces ! m)"
    using m(2) by (simp add: elemAtInt_def elemAt_def)
  define t3 where "t3 = modifyNode t2 c (\<lambda>n. n\<lparr>entries := take m (entries n)\<rparr>)"
  have v3: "view t3 = (view t)(sid \<mapsto> (l, drop (Suc m) ces, []), c \<mapsto> (l, take m ces, ck))"
    using c sc
    by (auto simp add: t3_def view_modify_entries [where g = "take m"] v2 fun_eq_iff)
  have f3: "nextNodeId t3 = nextNodeId t + 1" "order t3 = order t" "rootId t3 = rootId t"
    "entryCount t3 = entryCount t" "keyType t3 = keyType t"
    using r1 by (simp_all add: t3_def t2_def)
  have ie: "insertAt es (int i) (ces ! m) = Inr (take i es @ ces ! m # drop i es)"
    using i(3) by (simp add: insertAt_def)
  have ic: "insertAt pk (int i + 1) sid = Inr (take (Suc i) pk @ sid # drop (Suc i) pk)"
    using i(1) by (simp add: insertAt_def nat_add_distrib)
  have uh: "upperHalf ck (int m) = drop (Suc m) ck" by (simp add: upperHalf_def nat_add_distrib)
  have fin: "\<exists>t'. modifyNode u p (\<lambda>n. n\<lparr>entries := take i es @ ces ! m # drop i es,
                children := take (Suc i) pk @ sid # drop (Suc i) pk\<rparr>) = t' \<and>
       (\<exists>pn. getNode u p = Inr pn \<and> entries pn = es \<and> children pn = pk) \<and>
       view t' = (view t)
        (nextNodeId t \<mapsto> (l, drop (Suc m) ces, if l then [] else drop (Suc m) ck),
         c \<mapsto> (l, take m ces, if l then ck else take (Suc m) ck),
         p \<mapsto> (lp, take i es @ ces ! m # drop i es,
                 take (Suc i) pk @ nextNodeId t # drop (Suc i) pk))"
    if "view u = (view t)(sid \<mapsto> (l, drop (Suc m) ces, if l then [] else drop (Suc m) ck),
                        c \<mapsto> (l, take m ces, if l then ck else take (Suc m) ck))" for u
  proof -
    have up: "view u p = Some (lp, es, pk)" using p pc sp by (simp add: that)
    from view_getNode [OF up] have "\<exists>pn. getNode u p = Inr pn \<and> entries pn = es \<and> children pn = pk"
      by blast
    moreover have "view (modifyNode u p (\<lambda>n. n\<lparr>entries := take i es @ ces ! m # drop i es,
                children := take (Suc i) pk @ sid # drop (Suc i) pk\<rparr>)) =
        (view u)(p \<mapsto> (lp, take i es @ ces ! m # drop i es,
                 take (Suc i) pk @ sid # drop (Suc i) pk))"
      using up by (auto simp add: view_modify_both fun_eq_iff)
    ultimately show ?thesis by (simp add: that sid_def)
  qed
  show ?thesis
  proof (cases l)
    case True
    have "view t3 = (view t)(sid \<mapsto> (l, drop (Suc m) ces, if l then [] else drop (Suc m) ck),
                        c \<mapsto> (l, take m ces, if l then ck else take (Suc m) ck))"
      using True by (simp add: v3)
    from fin [OF this] obtain t' pn where
      t': "modifyNode t3 p (\<lambda>n. n\<lparr>entries := take i es @ ces ! m # drop i es,
                children := take (Suc i) pk @ sid # drop (Suc i) pk\<rparr>) = t'"
      and pn: "getNode t3 p = Inr pn" "entries pn = es" "children pn = pk"
      and vt: "view t' = (view t)
        (nextNodeId t \<mapsto> (l, drop (Suc m) ces, if l then [] else drop (Suc m) ck),
         c \<mapsto> (l, take m ces, if l then ck else take (Suc m) ck),
         p \<mapsto> (lp, take i es @ ces ! m # drop i es,
                 take (Suc i) pk @ nextNodeId t # drop (Suc i) pk))"
      by blast
    have res: "splitChild t p (int i) = Inr t'"
      unfolding splitChild_def
      using parent ci child mid cn me True pn [unfolded t3_def t2_def] ie ic
        t' [unfolded t3_def t2_def]
      by (simp add: Let_def)
    have "nextNodeId t' = nextNodeId t + 1" "order t' = order t" "rootId t' = rootId t"
      "entryCount t' = entryCount t" "keyType t' = keyType t"
      using f3 t' by auto
    with res vt show ?thesis by blast
  next
    case False
    have s3: "view t3 sid = Some (l, drop (Suc m) ces, [])" using sc by (simp add: v3)
    have g3: "\<forall>g \<in> set (drop (Suc m) ck). view t3 g \<noteq> None"
      using gk [OF False] by (simp add: v3)
    from moveChildren_view [OF s3 g3] obtain t4 where
      t4: "moveChildren t3 sid (drop (Suc m) ck) = Inr t4"
        "view t4 = (view t3)(sid \<mapsto> (l, drop (Suc m) ces, [] @ drop (Suc m) ck))"
        "nextNodeId t4 = nextNodeId t3" "order t4 = order t3" "rootId t4 = rootId t3"
        "entryCount t4 = entryCount t3" "keyType t4 = keyType t3"
      by blast
    define u where "u = modifyNode t4 c (\<lambda>n. n\<lparr>children := take (Suc m) (children n)\<rparr>)"
    have "view u = (view t)(sid \<mapsto> (l, drop (Suc m) ces, if l then [] else drop (Suc m) ck),
                        c \<mapsto> (l, take m ces, if l then ck else take (Suc m) ck))"
      using sc False
      by (auto simp add: u_def view_modify_children [where g = "take (Suc m)"] t4(2) v3 fun_eq_iff)
    from fin [OF this] obtain t' pn where
      t': "modifyNode u p (\<lambda>n. n\<lparr>entries := take i es @ ces ! m # drop i es,
                children := take (Suc i) pk @ sid # drop (Suc i) pk\<rparr>) = t'"
      and pn: "getNode u p = Inr pn" "entries pn = es" "children pn = pk"
      and vt: "view t' = (view t)
        (nextNodeId t \<mapsto> (l, drop (Suc m) ces, if l then [] else drop (Suc m) ck),
         c \<mapsto> (l, take m ces, if l then ck else take (Suc m) ck),
         p \<mapsto> (lp, take i es @ ces ! m # drop i es,
                 take (Suc i) pk @ nextNodeId t # drop (Suc i) pk))"
      by blast
    have res: "splitChild t p (int i) = Inr t'"
      unfolding splitChild_def
      using parent ci child mid cn me False uh t4(1) [unfolded t3_def t2_def]
        pn [unfolded u_def] ie ic t' [unfolded u_def]
      by (simp add: Let_def nat_add_distrib)
    have "nextNodeId t' = nextNodeId t + 1" "order t' = order t" "rootId t' = rootId t"
      "entryCount t' = entryCount t" "keyType t' = keyType t"
      using f3 t4(3-7) t' by (auto simp add: u_def)
    with res vt show ?thesis by blast
  qed
qed

section \<open>Trees and stores\<close>

lemma aid_in_ids: "aid T \<in> set (ids T)"
  by (cases T) simp

lemma ids_kid_subset: "k \<in> set ks \<Longrightarrow> set (ids k) \<subseteq> set (ids (ANode i l es ks))"
  by auto

lemma repr_frame:
  "repr t T \<Longrightarrow> (\<forall>i \<in> set (ids T). view t' i = view t i) \<Longrightarrow> repr t' T"
proof (induction T)
  case (ANode i l es ks)
  have "repr t' k" if "k \<in> set ks" for k
    using ANode.IH [OF that] ANode.prems that by auto
  with ANode.prems show ?case by simp
qed

lemma height_le_iff: "height (ANode i l es ks) \<le> Suc f \<longleftrightarrow> (\<forall>k \<in> set ks. height k \<le> f)"
  by simp

lemma height_kid: "k \<in> set ks \<Longrightarrow> height k < height (ANode i l es ks)"
proof -
  assume "k \<in> set ks"
  then have "height k \<le> Max (insert 0 (height ` set ks))" by (intro Max_ge) auto
  then show ?thesis by simp
qed

lemma height_mono:
  "set ks' \<subseteq> set ks \<Longrightarrow> height (ANode i' l' es' ks') \<le> height (ANode i l es ks)"
proof -
  assume "set ks' \<subseteq> set ks"
  then have "Max (insert 0 (height ` set ks')) \<le> Max (insert 0 (height ` set ks))"
    by (intro Max_mono) auto
  then show ?thesis by simp
qed

lemma distinct_ids_kids:
  assumes "distinct (ids (ANode i l es ks))" and "a < length ks" and "b < length ks" and "a \<noteq> b"
  shows "set (ids (ks ! a)) \<inter> set (ids (ks ! b)) = {}"
proof -
  from assms(1) have d: "distinct (concat (map ids ks))" by simp
  show ?thesis
  proof (rule ccontr)
    assume "set (ids (ks ! a)) \<inter> set (ids (ks ! b)) \<noteq> {}"
    then obtain x where x: "x \<in> set (ids (ks ! a))" "x \<in> set (ids (ks ! b))" by auto
    have "\<exists>a b. a < b \<and> b < length ks \<and> x \<in> set (ids (ks ! a)) \<and> x \<in> set (ids (ks ! b))"
    proof (cases "a < b")
      case True
      with assms(3) x show ?thesis by blast
    next
      case False
      with assms(4) have "b < a" by simp
      with assms(2) x show ?thesis by blast
    qed
    then obtain a' b' where ab: "a' < b'" "b' < length ks" "x \<in> set (ids (ks ! a'))"
        "x \<in> set (ids (ks ! b'))" by blast
    have "ks = take b' ks @ drop b' ks" by simp
    then have "concat (map ids ks) = concat (map ids (take b' ks)) @ concat (map ids (drop b' ks))"
      by (metis concat_append map_append)
    with d have dis: "set (concat (map ids (take b' ks))) \<inter> set (concat (map ids (drop b' ks))) = {}"
      by (metis distinct_append)
    have "ks ! a' \<in> set (take b' ks)" using ab(1,2) by (auto simp add: in_set_conv_nth intro!: exI [of _ a'])
    then have "x \<in> set (concat (map ids (take b' ks)))" using ab(3) by auto
    moreover have "ks ! b' \<in> set (drop b' ks)" using ab(2)
      by (metis Cons_nth_drop_Suc list.set_intros(1))
    then have "x \<in> set (concat (map ids (drop b' ks)))" using ab(4) by auto
    ultimately show False using dis by auto
  qed
qed

lemma distinct_ids_root:
  "distinct (ids (ANode i l es ks)) \<Longrightarrow> k \<in> set ks \<Longrightarrow> i \<notin> set (ids k)"
  by auto

lemma distinct_ids_kid:
  "distinct (ids (ANode i l es ks)) \<Longrightarrow> k \<in> set ks \<Longrightarrow> distinct (ids k)"
proof -
  assume "distinct (ids (ANode i l es ks))" and k: "k \<in> set ks"
  then have "distinct (concat (map ids ks))" by simp
  then have "\<forall>ys \<in> set (map ids ks). distinct ys" by (simp add: distinct_concat_iff)
  with k show ?thesis by simp
qed

lemma mset_ids_node:
  "mset (ids (ANode i l es ks)) = add_mset i (\<Sum>k \<leftarrow> ks. mset (ids k))"
  by (simp add: mset_concat comp_def)

section \<open>In-order lists\<close>

lemma interleave_concat:
  "length ks = length es + 1 \<Longrightarrow>
   interleave ks es = concat (map (\<lambda>j. ks ! j @ [es ! j]) [0..<length es]) @ last ks"
proof (induction ks es rule: interleave.induct)
  case (1 k ks e es)
  have "[0..<length (e # es)] = 0 # map Suc [0..<length es]"
    by (simp add: upt_conv_Cons map_Suc_upt del: upt_Suc)
  with 1 show ?case by (auto simp add: comp_def)
next
  case (2 es)
  then show ?case by simp
next
  case (3 v va)
  then show ?case by (cases va) simp_all
qed

lemma inorder_node:
  assumes len: "length ks = length es + 1"
  shows "inorder (ANode i l es ks) =
     concat (map (\<lambda>j. inorder (ks ! j) @ [es ! j]) [0..<length es]) @ inorder (last ks)"
proof -
  have m: "map (\<lambda>j. map inorder ks ! j @ [es ! j]) [0..<length es] =
        map (\<lambda>j. inorder (ks ! j) @ [es ! j]) [0..<length es]"
    by (rule map_cong) (use len in auto)
  from len have ne: "ks \<noteq> []" by auto
  have "inorder (ANode i l es ks) = interleave (map inorder ks) es" by simp
  also have "\<dots> = concat (map (\<lambda>j. map inorder ks ! j @ [es ! j]) [0..<length es]) @ last (map inorder ks)"
    by (rule interleave_concat) (use len in simp)
  also have "last (map inorder ks) = inorder (last ks)" using ne by (rule last_map)
  finally show ?thesis by (simp only: m)
qed

lemma interleave_single [simp]: "interleave [k] es = k @ es"
  by (cases es) simp_all

lemma interleave_split:
  "length ks = length es + 1 \<Longrightarrow> m < length es \<Longrightarrow>
   interleave ks es =
     interleave (take (Suc m) ks) (take m es) @ es ! m # interleave (drop (Suc m) ks) (drop (Suc m) es)"
proof (induction m arbitrary: ks es)
  case 0
  then obtain k ks' e es' where "ks = k # ks'" "es = e # es'"
    by (cases ks; cases es) auto
  then show ?case by simp
next
  case (Suc m)
  then obtain k ks' e es' where eq: "ks = k # ks'" "es = e # es'"
    by (cases ks; cases es) auto
  with Suc.prems have "length ks' = length es' + 1" "m < length es'" by simp_all
  from Suc.IH [OF this] show ?case by (simp add: eq)
qed

lemma interleave_replace:
  "length ks = length es + 1 \<Longrightarrow> i < length ks \<Longrightarrow> ks ! i = A @ s # B \<Longrightarrow>
   interleave (take i ks @ A # B # drop (Suc i) ks) (take i es @ s # drop i es) = interleave ks es"
proof (induction i arbitrary: ks es)
  case 0
  then obtain ks' where ks: "ks = (A @ s # B) # ks'" by (cases ks) auto
  show ?case
  proof (cases es)
    case Nil
    with 0 ks show ?thesis by simp
  next
    case (Cons e es')
    with ks show ?thesis by simp
  qed
next
  case (Suc i)
  then obtain k ks' e es' where eq: "ks = k # ks'" "es = e # es'"
    by (cases ks; cases es) auto
  with Suc.prems have "length ks' = length es' + 1" "i < length ks'" "ks' ! i = A @ s # B"
    by simp_all
  from Suc.IH [OF this] show ?case by (simp add: eq)
qed

lemma interleave_around:
  "length ks = length es + 1 \<Longrightarrow> j < length ks \<Longrightarrow>
   \<exists>L R. (\<forall>X. interleave (ks[j := X]) es = L @ X @ R) \<and>
         (j = 0 \<and> L = [] \<or> (0 < j \<and> (\<exists>L'. L = L' @ [es ! (j - 1)]))) \<and>
         (j = length es \<and> R = [] \<or> (j < length es \<and> (\<exists>R'. R = es ! j # R')))"
proof (induction j arbitrary: ks es)
  case 0
  then obtain k ks' where ks: "ks = k # ks'" by (cases ks) auto
  show ?case
  proof (cases es)
    case Nil
    with 0 ks show ?thesis by simp
  next
    case (Cons e es')
    have "\<forall>X. interleave (ks[0 := X]) es = [] @ X @ (e # interleave ks' es')"
      by (simp add: ks Cons)
    moreover have "0 < length es \<and> (\<exists>R'. e # interleave ks' es' = es ! 0 # R')"
      by (simp add: Cons)
    ultimately show ?thesis by blast
  qed
next
  case (Suc j)
  then obtain k ks' e es' where eq: "ks = k # ks'" "es = e # es'"
    by (cases ks; cases es) auto
  with Suc.prems have "length ks' = length es' + 1" "j < length ks'" by simp_all
  from Suc.IH [OF this] obtain L R where
    LR: "\<forall>X. interleave (ks'[j := X]) es' = L @ X @ R"
      "j = 0 \<and> L = [] \<or> (0 < j \<and> (\<exists>L'. L = L' @ [es' ! (j - 1)]))"
      "j = length es' \<and> R = [] \<or> (j < length es' \<and> (\<exists>R'. R = es' ! j # R'))"
    by blast
  have 1: "\<forall>X. interleave (ks[Suc j := X]) es = (k @ e # L) @ X @ R"
    using LR(1) by (simp add: eq)
  have 2: "\<exists>L'. k @ e # L = L' @ [es ! (Suc j - 1)]"
  proof (cases "j = 0")
    case True
    with LR(2) show ?thesis by (simp add: eq)
  next
    case False
    with LR(2) obtain L' where "L = L' @ [es' ! (j - 1)]" by auto
    with False show ?thesis by (intro exI [of _ "k @ e # L'"]) (simp add: eq nth_Cons')
  qed
  have 3: "Suc j = length es \<and> R = [] \<or> (Suc j < length es \<and> (\<exists>R'. R = es ! Suc j # R'))"
    using LR(3) by (simp add: eq)
  from 1 2 3 show ?case by blast
qed

lemma key_le_trans:
  "consistent K \<Longrightarrow> key x \<in> K \<Longrightarrow> key y \<in> K \<Longrightarrow> key z \<in> K \<Longrightarrow>
   key_le x y \<Longrightarrow> key_le y z \<Longrightarrow> key_le x z"
  unfolding consistent_def key_le_def by blast

lemma ordered_ins_descend:
  assumes len: "length xs = length es + 1" and j: "j < length xs"
    and oi: "ordered_ins K e (xs ! j) X'"
    and lo: "0 < j \<Longrightarrow> key_le (es ! (j - 1)) e"
    and hi: "j < length es \<Longrightarrow> key_le e (es ! j)"
  shows "ordered_ins K e (interleave xs es) (interleave (xs[j := X']) es)"
proof -
  from interleave_around [OF len j] obtain L R where
    LR: "\<forall>X. interleave (xs[j := X]) es = L @ X @ R"
      "j = 0 \<and> L = [] \<or> (0 < j \<and> (\<exists>L'. L = L' @ [es ! (j - 1)]))"
      "j = length es \<and> R = [] \<or> (j < length es \<and> (\<exists>R'. R = es ! j # R'))"
    by blast
  from LR(1) have old: "interleave xs es = L @ xs ! j @ R"
    by (metis list_update_id)
  from LR(1) have new: "interleave (xs[j := X']) es = L @ X' @ R" by blast
  from oi obtain a b where ab: "xs ! j = a @ b" "X' = a @ e # b"
    and cond: "consistent K \<and> key e \<in> K \<and> key ` set (xs ! j) \<subseteq> K \<and> sorted_wrt key_le (xs ! j) \<longrightarrow>
           (\<forall>x \<in> set a. key_le x e) \<and> (\<forall>y \<in> set b. key_le e y)"
    unfolding ordered_ins_def by blast
  have "(\<forall>x \<in> set (L @ a). key_le x e) \<and> (\<forall>y \<in> set (b @ R). key_le e y)"
    if h: "consistent K" "key e \<in> K" "key ` set (interleave xs es) \<subseteq> K"
      "sorted_wrt key_le (interleave xs es)"
  proof -
    from h(3) have kin: "key ` set L \<subseteq> K" "key ` set (xs ! j) \<subseteq> K" "key ` set R \<subseteq> K"
      by (auto simp add: old)
    from h(4) have sL: "sorted_wrt key_le L" and sM: "sorted_wrt key_le (xs ! j)"
      and sR: "sorted_wrt key_le R"
      by (simp_all add: old sorted_wrt_append)
    from cond h(1,2) kin(2) sM have inner: "\<forall>x \<in> set a. key_le x e" "\<forall>y \<in> set b. key_le e y"
      by blast+
    have left: "key_le x e" if "x \<in> set L" for x
    proof -
      from that LR(2) obtain L' where L': "L = L' @ [es ! (j - 1)]" "0 < j" by auto
      show ?thesis
      proof (cases "x = es ! (j - 1)")
        case True
        with lo L'(2) show ?thesis by simp
      next
        case False
        with that L'(1) have "x \<in> set L'" by auto
        with sL L'(1) have "key_le x (es ! (j - 1))" by (simp add: sorted_wrt_append)
        moreover have "key (es ! (j - 1)) \<in> K" using kin(1) L'(1) by auto
        moreover have "key x \<in> K" using kin(1) that by auto
        ultimately show ?thesis using key_le_trans [OF h(1) _ _ h(2)] lo [OF L'(2)] by blast
      qed
    qed
    have right: "key_le e y" if "y \<in> set R" for y
    proof -
      from that LR(3) obtain R' where R': "R = es ! j # R'" "j < length es" by auto
      show ?thesis
      proof (cases "y = es ! j")
        case True
        with hi R'(2) show ?thesis by simp
      next
        case False
        with that R'(1) have "y \<in> set R'" by auto
        with sR R'(1) have "key_le (es ! j) y" by simp
        moreover have "key (es ! j) \<in> K" using kin(3) R'(1) by auto
        moreover have "key y \<in> K" using kin(3) that by auto
        ultimately show ?thesis using key_le_trans [OF h(1) h(2)] hi [OF R'(2)] by blast
      qed
    qed
    from inner left right show ?thesis by auto
  qed
  then have "interleave xs es = (L @ a) @ (b @ R) \<and>
      interleave (xs[j := X']) es = (L @ a) @ e # (b @ R) \<and>
      (consistent K \<and> key e \<in> K \<and> key ` set (interleave xs es) \<subseteq> K \<and>
         sorted_wrt key_le (interleave xs es) \<longrightarrow>
       (\<forall>x \<in> set (L @ a). key_le x e) \<and> (\<forall>y \<in> set (b @ R). key_le e y))"
    using LR(1) by (simp add: old ab)
  then show ?thesis unfolding ordered_ins_def by blast
qed

lemma ordered_ins_length: "ordered_ins K e xs ys \<Longrightarrow> length ys = Suc (length xs)"
  unfolding ordered_ins_def by auto

lemma ordered_ins_mset: "ordered_ins K e xs ys \<Longrightarrow> mset ys = add_mset e (mset xs)"
  unfolding ordered_ins_def by auto

lemma ordered_ins_sorted:
  assumes "ordered_ins K e xs ys" "consistent K" "key e \<in> K" "key ` set xs \<subseteq> K"
    "sorted_wrt key_le xs"
  shows "sorted_wrt key_le ys"
proof -
  from assms obtain a b where ab: "xs = a @ b" "ys = a @ e # b"
    "\<forall>x \<in> set a. key_le x e" "\<forall>y \<in> set b. key_le e y"
    unfolding ordered_ins_def by blast
  with assms(5) show ?thesis by (auto simp add: sorted_wrt_append)
qed

section \<open>splitChild on trees\<close>

lemma repr_view: "repr t T \<Longrightarrow> view t (aid T) = Some (aleaf T, aents T, map aid (akids T))"
  by (cases T) simp

lemma repr_kid: "repr t (ANode i l es ks) \<Longrightarrow> k \<in> set ks \<Longrightarrow> repr t k"
  by simp

lemma shape_kid: "shape (ANode i l es ks) \<Longrightarrow> k \<in> set ks \<Longrightarrow> shape k"
  by simp

lemma inorder_split:
  assumes "shape C" and "m < length (aents C)"
  shows "inorder C = inorder (split_left m C) @ aents C ! m # inorder (split_right m sid C)"
proof (cases C)
  case (ANode c l ces cks)
  show ?thesis
  proof (cases l)
    case True
    with assms ANode have "cks = []" by simp
    with assms ANode show ?thesis
      by (simp add: split_left_def split_right_def id_take_nth_drop [symmetric])
  next
    case False
    with assms ANode have "length (map inorder cks) = length ces + 1" by simp
    from interleave_split [OF this, of m] assms(2) ANode show ?thesis
      by (simp add: split_left_def split_right_def take_map drop_map)
  qed
qed

lemma mset_ids_split:
  "mset (ids (split_left m C)) + mset (ids (split_right m sid C)) = add_mset sid (mset (ids C))"
proof (cases C)
  case (ANode c l ces cks)
  have "(\<Sum>k \<leftarrow> take (Suc m) cks. mset (ids k)) + (\<Sum>k \<leftarrow> drop (Suc m) cks. mset (ids k)) =
        (\<Sum>k \<leftarrow> cks. mset (ids k))"
    by (metis append_take_drop_id map_append sum_list_append)
  then show ?thesis
    by (simp add: ANode split_left_def split_right_def mset_ids_node del: ids.simps)
qed

lemma mset_ids_split_at:
  assumes "j < length (akids P)"
  shows "mset (ids (split_at m sid j P)) = add_mset sid (mset (ids P))"
proof (cases P)
  case (ANode p lp es ks)
  with assms have j: "j < length ks" by simp
  have ks: "ks = take j ks @ ks ! j # drop (Suc j) ks" using j by (rule id_take_nth_drop)
  have "(\<Sum>k \<leftarrow> ks. mset (ids k)) =
      (\<Sum>k \<leftarrow> take j ks. mset (ids k)) + mset (ids (ks ! j)) + (\<Sum>k \<leftarrow> drop (Suc j) ks. mset (ids k))"
    by (subst ks) (simp del: ids.simps)
  then show ?thesis
    using mset_ids_split [of m "ks ! j" sid]
    by (simp add: ANode split_at_def mset_ids_node del: ids.simps)
qed

lemma height_split_at:
  assumes "j < length (akids P)"
  shows "height (split_at m sid j P) \<le> height P"
proof (cases P)
  case (ANode p lp es ks)
  with assms have j: "j < length ks" by simp
  obtain h where h: "height P = Suc h" by (cases P) simp
  with ANode have "height (ANode p lp es ks) \<le> Suc h" by simp
  then have kh: "\<forall>k \<in> set ks. height k \<le> h" by (simp only: height_le_iff)
  have C: "ks ! j \<in> set ks" using j by simp
  obtain c l ces cks where Ceq: "ks ! j = ANode c l ces cks" by (cases "ks ! j")
  have "height (split_left m (ks ! j)) \<le> height (ks ! j)"
    unfolding split_left_def Ceq atree.sel by (rule height_mono) (rule set_take_subset)
  moreover have "height (split_right m sid (ks ! j)) \<le> height (ks ! j)"
    unfolding split_right_def Ceq atree.sel by (rule height_mono) (rule set_drop_subset)
  ultimately have lr: "height (split_left m (ks ! j)) \<le> h" "height (split_right m sid (ks ! j)) \<le> h"
    using kh C by (meson le_trans)+
  have "\<forall>k \<in> set (take j ks @ split_left m (ks ! j) # split_right m sid (ks ! j) # drop (Suc j) ks).
          height k \<le> h"
    using kh lr by (auto dest: in_set_takeD in_set_dropD)
  then have "height (split_at m sid j P) \<le> Suc h"
    unfolding split_at_def ANode atree.sel by (simp only: height_le_iff)
  with h show ?thesis by simp
qed

lemma inorder_split_at:
  assumes "shape P" and "\<not> aleaf P" and "j < length (akids P)"
    and "m < length (aents (akids P ! j))"
  shows "inorder (split_at m sid j P) = inorder P"
proof (cases P)
  case (ANode p lp es ks)
  with assms have j: "j < length ks" and len: "length ks = length es + 1" by simp_all
  have C: "ks ! j \<in> set ks" using j by simp
  with assms(1) ANode have sC: "shape (ks ! j)" by simp
  have eq: "map inorder ks ! j =
     inorder (split_left m (ks ! j)) @ aents (ks ! j) ! m # inorder (split_right m sid (ks ! j))"
    using inorder_split [OF sC, of m sid] assms(4) ANode j by simp
  have "interleave
      (take j (map inorder ks) @ inorder (split_left m (ks ! j)) #
         inorder (split_right m sid (ks ! j)) # drop (Suc j) (map inorder ks))
      (take j es @ aents (ks ! j) ! m # drop j es) = interleave (map inorder ks) es"
    by (rule interleave_replace) (use len j eq in simp_all)
  then show ?thesis by (simp add: ANode split_at_def take_map drop_map)
qed

lemma ids_kid_of_kid:
  "k \<in> set ks \<Longrightarrow> g \<in> set (akids k) \<Longrightarrow> set (ids g) \<subseteq> set (ids k)"
  by (cases k) auto

lemma distinct_not_root: "distinct (ids C) \<Longrightarrow> g \<in> set (akids C) \<Longrightarrow> aid C \<notin> set (ids g)"
  by (cases C) auto

lemma splitChild_tree:
  assumes pre: "ins_pre t P" and nl: "\<not> aleaf P" and j: "j < length (akids P)"
    and full: "order t - 1 \<le> int (length (aents (akids P ! j)))"
    and m: "m = nat ((order t - 1) div 2)" and sid: "sid = nextNodeId t"
  shows "\<exists>t'. splitChild t (aid P) (int j) = Inr t' \<and> ins_pre t' (split_at m sid j P) \<and>
     nextNodeId t' = nextNodeId t + 1 \<and>
     (\<forall>x. x \<notin> set (ids P) \<longrightarrow> x \<noteq> sid \<longrightarrow> view t' x = view t x) \<and>
     order t' = order t \<and> rootId t' = rootId t \<and> entryCount t' = entryCount t \<and>
     keyType t' = keyType t \<and> m < length (aents (akids P ! j))"
proof -
  obtain p lp es ks where P: "P = ANode p lp es ks" by (cases P)
  obtain c l ces cks where C: "ks ! j = ANode c l ces cks" by (cases "ks ! j")
  from pre have rP: "repr t P" and sP: "shape P" and dP: "distinct (ids P)"
    and bP: "\<forall>i \<in> set (ids P). i < nextNodeId t"
    and fr: "\<forall>x. nextNodeId t \<le> x \<longrightarrow> view t x = None" and ord: "2 \<le> order t"
    unfolding ins_pre_def by blast+
  from j P have jk: "j < length ks" by simp
  then have Cin: "ks ! j \<in> set ks" by simp
  from sP nl P have len: "length ks = length es + 1" by simp
  from rP P Cin have rC: "repr t (ks ! j)" by simp
  from sP P Cin have sC: "shape (ks ! j)" by simp
  from dP P Cin have dC: "distinct (ids (ks ! j))" using distinct_ids_kid by blast
  have mlt: "m < length ces" using full ord m P C by simp
  have vp: "view t p = Some (lp, es, map aid ks)" using rP P by simp
  have vc: "view t c = Some (l, ces, map aid cks)" using rC C by simp
  have cin: "c \<in> set (ids (ks ! j))" using C by simp
  have pc: "p \<noteq> c" using dP P Cin cin by auto
  have fresh: "view t (nextNodeId t) = None" using fr by simp
  have gk: "\<forall>g \<in> set (drop (Suc m) (map aid cks)). view t g \<noteq> None"
  proof
    fix g assume "g \<in> set (drop (Suc m) (map aid cks))"
    then have "g \<in> set (map aid cks)" by (rule in_set_dropD)
    then obtain G where G: "G \<in> set cks" "g = aid G" by auto
    with rC C have "repr t G" by simp
    from repr_view [OF this] G(2) show "view t g \<noteq> None" by simp
  qed
  have i1: "j < length (map aid ks)" "map aid ks ! j = c" "j \<le> length es"
    using jk C len by simp_all
  from splitChild_view [OF vp i1 vc pc fresh ord m mlt gk]
  obtain t' where t': "splitChild t p (int j) = Inr t'"
    and vt: "view t' = (view t)
        (nextNodeId t \<mapsto> (l, drop (Suc m) ces, if l then [] else drop (Suc m) (map aid cks)),
         c \<mapsto> (l, take m ces, if l then map aid cks else take (Suc m) (map aid cks)),
         p \<mapsto> (lp, take j es @ ces ! m # drop j es,
                 take (Suc j) (map aid ks) @ nextNodeId t # drop (Suc j) (map aid ks)))"
    and ft: "nextNodeId t' = nextNodeId t + 1" "order t' = order t" "rootId t' = rootId t"
      "entryCount t' = entryCount t" "keyType t' = keyType t"
    by blast
  have lcks: "l \<Longrightarrow> cks = []" using sC C by simp
  have sp: "sid \<noteq> p" and sc: "sid \<noteq> c" using vp vc fresh sid by auto
  have vtp: "view t' p = Some (lp, take j es @ ces ! m # drop j es,
                 take (Suc j) (map aid ks) @ sid # drop (Suc j) (map aid ks))"
    by (simp add: vt sid)
  have vtc: "view t' c = Some (l, take m ces, map aid (take (Suc m) cks))"
    using pc lcks by (cases l) (simp_all add: vt take_map)
  have vts: "view t' sid = Some (l, drop (Suc m) ces, map aid (drop (Suc m) cks))"
    using sp sc lcks by (cases l) (simp_all add: vt sid drop_map)
  have frame: "view t' x = view t x" if "x \<noteq> p" "x \<noteq> c" "x \<noteq> sid" for x
    using that by (simp add: vt sid)
  have sid_new: "sid \<notin> set (ids P)" using bP sid by auto
  have idsC: "set (ids (ks ! j)) \<subseteq> set (ids P)"
    unfolding P using ids_kid_subset [OF Cin] .
  have pnC: "p \<notin> set (ids (ks ! j))" using distinct_ids_root [OF dP [unfolded P] Cin] .
  have akC: "akids (ks ! j) = cks" "aid (ks ! j) = c" by (simp_all add: C)
  have frameG: "repr t' G" if G: "G \<in> set cks" for G
  proof -
    from rC G have rG: "repr t G" unfolding C by simp
    have sub: "set (ids G) \<subseteq> set (ids (ks ! j))"
      using ids_kid_of_kid [OF Cin, of G] G akC by simp
    have cnG: "c \<notin> set (ids G)" using distinct_not_root [OF dC, of G] G akC by simp
    have "view t' x = view t x" if x: "x \<in> set (ids G)" for x
    proof (rule frame)
      show "x \<noteq> p" using x sub pnC by blast
      show "x \<noteq> c" using x cnG by blast
      show "x \<noteq> sid" using x sub idsC sid_new by blast
    qed
    then have "\<forall>i \<in> set (ids G). view t' i = view t i" by blast
    with rG show ?thesis by (rule repr_frame)
  qed
  have frameK: "repr t' (ks ! a)" if a: "a < length ks" "a \<noteq> j" for a
  proof -
    have ka: "ks ! a \<in> set ks" using a by simp
    with rP have rK: "repr t (ks ! a)" unfolding P by simp
    have dis: "set (ids (ks ! a)) \<inter> set (ids (ks ! j)) = {}"
      using distinct_ids_kids [OF dP [unfolded P] a(1) jk a(2)] .
    have pnK: "p \<notin> set (ids (ks ! a))" using distinct_ids_root [OF dP [unfolded P] ka] .
    have subK: "set (ids (ks ! a)) \<subseteq> set (ids P)"
      unfolding P using ids_kid_subset [OF ka] .
    have "view t' x = view t x" if x: "x \<in> set (ids (ks ! a))" for x
    proof (rule frame)
      show "x \<noteq> p" using x pnK by blast
      show "x \<noteq> c" using x dis cin by blast
      show "x \<noteq> sid" using x subK sid_new by blast
    qed
    then have "\<forall>i \<in> set (ids (ks ! a)). view t' i = view t i" by blast
    with rK show ?thesis by (rule repr_frame)
  qed
  let ?L = "split_left m (ks ! j)" and ?R = "split_right m sid (ks ! j)"
  let ?P' = "split_at m sid j P"
  have rL: "repr t' ?L"
  proof -
    have "\<forall>k \<in> set (take (Suc m) cks). repr t' k" using frameG by (auto dest: in_set_takeD)
    with vtc show ?thesis by (simp add: split_left_def C)
  qed
  have rR: "repr t' ?R"
  proof -
    have "\<forall>k \<in> set (drop (Suc m) cks). repr t' k" using frameG by (auto dest: in_set_dropD)
    with vts show ?thesis by (simp add: split_right_def C)
  qed
  have kids_map: "map aid (take j ks @ ?L # ?R # drop (Suc j) ks) =
      take (Suc j) (map aid ks) @ sid # drop (Suc j) (map aid ks)"
    using jk C by (simp add: take_Suc_conv_app_nth split_left_def split_right_def take_map drop_map)
  have rkids: "repr t' k" if "k \<in> set (take j ks @ ?L # ?R # drop (Suc j) ks)" for k
  proof -
    from that consider "k \<in> set (take j ks)" | "k = ?L" | "k = ?R" | "k \<in> set (drop (Suc j) ks)"
      by auto
    then show ?thesis
    proof cases
      case 1
      then obtain a where "a < j" "k = ks ! a" using jk
        by (auto simp add: in_set_conv_nth)
      with frameK [of a] jk show ?thesis by simp
    next
      case 2
      with rL show ?thesis by simp
    next
      case 3
      with rR show ?thesis by simp
    next
      case 4
      then obtain a where "a < length ks - Suc j" "k = ks ! (Suc j + a)"
        by (auto simp add: in_set_conv_nth)
      with frameK [of "Suc j + a"] show ?thesis by simp
    qed
  qed
  have rP': "repr t' ?P'"
  proof -
    have "repr t' (ANode p lp (take j es @ ces ! m # drop j es)
              (take j ks @ ?L # ?R # drop (Suc j) ks))"
      unfolding repr.simps using rkids by (simp only: kids_map vtp) blast
    then show ?thesis by (simp add: split_at_def P C)
  qed
  have shG: "\<forall>k \<in> set cks. shape k" using sC C by simp
  have shL: "shape ?L"
  proof -
    have "\<forall>k \<in> set (take (Suc m) cks). shape k" using shG by (auto dest: in_set_takeD)
    then show ?thesis using sC C mlt lcks by (cases l) (simp_all add: split_left_def)
  qed
  have shR: "shape ?R"
  proof -
    have "\<forall>k \<in> set (drop (Suc m) cks). shape k" using shG by (auto dest: in_set_dropD)
    then show ?thesis using sC C mlt lcks by (cases l) (simp_all add: split_right_def)
  qed
  have shK: "\<forall>k \<in> set ks. shape k" using sP P by simp
  have shP': "shape ?P'"
  proof -
    have "\<forall>k \<in> set (take j ks @ ?L # ?R # drop (Suc j) ks). shape k"
      using shK shL shR by (auto dest: in_set_takeD in_set_dropD)
    moreover have "length (take j ks @ ?L # ?R # drop (Suc j) ks) =
        length (take j es @ aents (ks ! j) ! m # drop j es) + 1"
      using len jk by simp
    ultimately show ?thesis using nl P by (simp add: split_at_def)
  qed
  have ms: "mset (ids ?P') = add_mset sid (mset (ids P))"
    by (rule mset_ids_split_at) (use j in simp)
  then have "mset (ids ?P') = mset (sid # ids P)" by simp
  then have "distinct (ids ?P') = distinct (sid # ids P)" by (rule mset_eq_imp_distinct_iff)
  with dP sid_new have dP': "distinct (ids ?P')" by simp
  from ms have setP': "set (ids ?P') = insert sid (set (ids P))"
    by (metis mset_eq_setD list.simps(15) mset.simps(2))
  have bP': "\<forall>i \<in> set (ids ?P'). i < nextNodeId t'" using bP setP' ft(1) sid by auto
  have frP': "\<forall>x. nextNodeId t' \<le> x \<longrightarrow> view t' x = None"
  proof (intro allI impI)
    fix x assume x: "nextNodeId t' \<le> x"
    have "p < nextNodeId t" using bP P by simp
    moreover have "c < nextNodeId t" using bP idsC cin by auto
    ultimately have "view t' x = view t x" using x ft(1) sid by (intro frame) auto
    with fr x ft(1) show "view t' x = None" by simp
  qed
  have pre': "ins_pre t' ?P'"
    unfolding ins_pre_def using rP' shP' dP' bP' frP' ord ft(2) by simp
  have fr2: "\<forall>x. x \<notin> set (ids P) \<longrightarrow> x \<noteq> sid \<longrightarrow> view t' x = view t x"
  proof (intro allI impI)
    fix x assume "x \<notin> set (ids P)" "x \<noteq> sid"
    then show "view t' x = view t x" using P idsC cin by (intro frame) auto
  qed
  have "m < length (aents (akids P ! j))" using mlt P C by simp
  moreover have "splitChild t (aid P) (int j) = Inr t'" using t' P by simp
  ultimately show ?thesis using pre' ft fr2 by blast
qed

section \<open>insertNonFull on trees\<close>

lemma scanBack_spec:
  "- 1 \<le> s \<Longrightarrow> s < int (length es) \<Longrightarrow>
   - 1 \<le> scanBack k es s \<and> scanBack k es s \<le> s \<and>
   (\<forall>i. scanBack k es s < int i \<and> int i \<le> s \<longrightarrow> compareValues k (key (es ! i)) < 0) \<and>
   (0 \<le> scanBack k es s \<longrightarrow> \<not> compareValues k (key (es ! nat (scanBack k es s))) < 0)"
proof (induction k es s rule: scanBack.induct)
  case (1 k es i)
  show ?case
  proof (cases "0 \<le> i \<and> compareValues k (key (es ! nat i)) < 0")
    case True
    then have eq: "scanBack k es i = scanBack k es (i - 1)" by (subst scanBack.simps) simp
    from True 1 have ih: "- 1 \<le> scanBack k es (i - 1) \<and> scanBack k es (i - 1) \<le> i - 1 \<and>
      (\<forall>j. scanBack k es (i - 1) < int j \<and> int j \<le> i - 1 \<longrightarrow> compareValues k (key (es ! j)) < 0) \<and>
      (0 \<le> scanBack k es (i - 1) \<longrightarrow>
         \<not> compareValues k (key (es ! nat (scanBack k es (i - 1)))) < 0)"
      by simp
    have "compareValues k (key (es ! j)) < 0"
      if "scanBack k es (i - 1) < int j" "int j \<le> i" for j
    proof (cases "int j = i")
      case True
      with \<open>0 \<le> i \<and> compareValues k (key (es ! nat i)) < 0\<close> show ?thesis by auto
    next
      case False
      with that ih show ?thesis by simp
    qed
    with ih show ?thesis by (simp add: eq)
  next
    case False
    then have eq: "scanBack k es i = i" by (subst scanBack.simps) auto
    with False 1 show ?thesis by auto
  qed
qed

lemma scanBack_pos:
  defines "pos k es \<equiv> nat (scanBack k es (int (length es) - 1) + 1)"
  shows "pos k es \<le> length es \<and> scanBack k es (int (length es) - 1) + 1 = int (pos k es) \<and>
     (\<forall>i. pos k es \<le> i \<and> i < length es \<longrightarrow> compareValues k (key (es ! i)) < 0) \<and>
     (0 < pos k es \<longrightarrow> \<not> compareValues k (key (es ! (pos k es - 1))) < 0)"
proof -
  let ?r = "scanBack k es (int (length es) - 1)"
  have s: "- 1 \<le> ?r \<and> ?r \<le> int (length es) - 1 \<and>
   (\<forall>i. ?r < int i \<and> int i \<le> int (length es) - 1 \<longrightarrow> compareValues k (key (es ! i)) < 0) \<and>
   (0 \<le> ?r \<longrightarrow> \<not> compareValues k (key (es ! nat ?r)) < 0)"
    by (rule scanBack_spec) simp_all
  then have p: "int (pos k es) = ?r + 1" by (simp add: pos_def)
  have 1: "pos k es \<le> length es" using s p by linarith
  have 2: "compareValues k (key (es ! i)) < 0" if "pos k es \<le> i" "i < length es" for i
  proof -
    from that p have "?r < int i \<and> int i \<le> int (length es) - 1" by linarith
    with s show ?thesis by blast
  qed
  have 3: "\<not> compareValues k (key (es ! (pos k es - 1))) < 0" if "0 < pos k es"
  proof -
    from that p have "0 \<le> ?r" "nat ?r = pos k es - 1" by linarith+
    with s show ?thesis by auto
  qed
  from 1 2 3 p show ?thesis by auto
qed

lemma ordered_ins_leaf:
  assumes p: "p \<le> length es"
    and hi: "\<forall>i. p \<le> i \<and> i < length es \<longrightarrow> compareValues (key e) (key (es ! i)) < 0"
    and lo: "0 < p \<longrightarrow> \<not> compareValues (key e) (key (es ! (p - 1))) < 0"
  shows "ordered_ins K e es (take p es @ e # drop p es)"
proof -
  have right: "key_le e y" if "y \<in> set (drop p es)" for y
  proof -
    from that obtain i where "i < length es - p" "y = es ! (p + i)"
      by (auto simp add: in_set_conv_nth)
    then have "p \<le> p + i \<and> p + i < length es" by simp
    with hi have "compareValues (key e) (key (es ! (p + i))) < 0" by blast
    with \<open>y = es ! (p + i)\<close> show ?thesis by (simp add: key_le_def)
  qed
  have left: "key_le x e" if h: "consistent K" "key e \<in> K" "key ` set es \<subseteq> K" "sorted_wrt key_le es"
    and x: "x \<in> set (take p es)" for x
  proof -
    from x obtain i where i: "i < p" "x = es ! i" using p
      by (auto simp add: in_set_conv_nth)
    then have pp: "0 < p" by simp
    with lo have last: "key_le (es ! (p - 1)) e"
      unfolding key_le_def using compareValues_total by blast
    show ?thesis
    proof (cases "i = p - 1")
      case True
      with last i show ?thesis by simp
    next
      case False
      with i have "i < p - 1" by simp
      moreover have "p - 1 < length es" using p pp by simp
      ultimately have "key_le (es ! i) (es ! (p - 1))"
        using h(4) by (simp add: sorted_wrt_nth_less)
      moreover have "key (es ! i) \<in> K" "key (es ! (p - 1)) \<in> K"
        using h(3) i p pp by auto
      ultimately show ?thesis using key_le_trans [OF h(1) _ _ h(2)] last i by blast
    qed
  qed
  show ?thesis
    unfolding ordered_ins_def
  proof (rule exI [of _ "take p es"], rule exI [of _ "drop p es"], intro conjI impI ballI)
    show "es = take p es @ drop p es" by simp
    show "take p es @ e # drop p es = take p es @ e # drop p es" ..
  next
    fix x
    assume "consistent K \<and> key e \<in> K \<and> key ` set es \<subseteq> K \<and> sorted_wrt key_le es"
      and "x \<in> set (take p es)"
    then show "key_le x e" using left by blast
  next
    fix y
    assume "y \<in> set (drop p es)"
    then show "key_le e y" by (rule right)
  qed
qed

lemma distinct_concat_nth:
  "distinct (concat xss) \<longleftrightarrow>
     (\<forall>i < length xss. distinct (xss ! i)) \<and>
     (\<forall>i j. i < length xss \<longrightarrow> j < length xss \<longrightarrow> i \<noteq> j \<longrightarrow> set (xss ! i) \<inter> set (xss ! j) = {})"
proof (induction xss)
  case Nil
  then show ?case by simp
next
  case (Cons xs xss)
  have A: "(\<forall>i < length (xs # xss). distinct ((xs # xss) ! i)) \<longleftrightarrow>
        distinct xs \<and> (\<forall>i < length xss. distinct (xss ! i))"
    by (auto simp add: nth_Cons split: nat.splits)
  have B: "(\<forall>i j. i < length (xs # xss) \<longrightarrow> j < length (xs # xss) \<longrightarrow> i \<noteq> j \<longrightarrow>
           set ((xs # xss) ! i) \<inter> set ((xs # xss) ! j) = {}) \<longleftrightarrow>
        (\<forall>j < length xss. set xs \<inter> set (xss ! j) = {}) \<and>
        (\<forall>i j. i < length xss \<longrightarrow> j < length xss \<longrightarrow> i \<noteq> j \<longrightarrow> set (xss ! i) \<inter> set (xss ! j) = {})"
    (is "?L \<longleftrightarrow> ?R1 \<and> ?R2")
  proof
    assume L: ?L
    have ?R1
    proof (intro allI impI)
      fix j assume "j < length xss"
      with L [rule_format, of 0 "Suc j"] show "set xs \<inter> set (xss ! j) = {}" by simp
    qed
    moreover have ?R2
    proof (intro allI impI)
      fix i j assume "i < length xss" "j < length xss" "i \<noteq> j"
      with L [rule_format, of "Suc i" "Suc j"] show "set (xss ! i) \<inter> set (xss ! j) = {}" by simp
    qed
    ultimately show "?R1 \<and> ?R2" ..
  next
    assume R: "?R1 \<and> ?R2"
    show ?L
    proof (intro allI impI)
      fix i j assume ij: "i < length (xs # xss)" "j < length (xs # xss)" "i \<noteq> j"
      show "set ((xs # xss) ! i) \<inter> set ((xs # xss) ! j) = {}"
      proof (cases i)
        case 0
        with ij obtain j' where "j = Suc j'" "j' < length xss" by (cases j) auto
        with 0 R show ?thesis by simp
      next
        case (Suc i')
        show ?thesis
        proof (cases j)
          case 0
          with Suc ij R show ?thesis by (simp add: Int_commute)
        next
          case (Suc j')
          with \<open>i = Suc i'\<close> ij R show ?thesis by simp
        qed
      qed
    qed
  qed
  have C: "set xs \<inter> \<Union> (set ` set xss) = {} \<longleftrightarrow> (\<forall>j < length xss. set xs \<inter> set (xss ! j) = {})"
    (is "?C1 \<longleftrightarrow> ?C2")
  proof
    assume c1: ?C1
    show ?C2
    proof (intro allI impI)
      fix j assume "j < length xss"
      then have "xss ! j \<in> set xss" by simp
      with c1 show "set xs \<inter> set (xss ! j) = {}" by blast
    qed
  next
    assume c2: ?C2
    have "set xs \<inter> set ys = {}" if "ys \<in> set xss" for ys
    proof -
      from that obtain j where "j < length xss" "ys = xss ! j" by (auto simp add: in_set_conv_nth)
      with c2 show ?thesis by blast
    qed
    then show ?C1 by blast
  qed
  have "distinct (concat (xs # xss)) \<longleftrightarrow>
      distinct xs \<and> distinct (concat xss) \<and> set xs \<inter> \<Union> (set ` set xss) = {}"
    by simp
  also have "\<dots> \<longleftrightarrow> distinct xs \<and> (\<forall>i < length xss. distinct (xss ! i)) \<and>
     (\<forall>i j. i < length xss \<longrightarrow> j < length xss \<longrightarrow> i \<noteq> j \<longrightarrow> set (xss ! i) \<inter> set (xss ! j) = {}) \<and>
     (\<forall>j < length xss. set xs \<inter> set (xss ! j) = {})"
    unfolding Cons.IH C by blast
  finally show ?case unfolding A B by blast
qed

lemma set_ids_node: "set (ids (ANode p l es ks)) = insert p (\<Union>k \<in> set ks. set (ids k))"
  by auto

lemma ins_postD:
  assumes "ins_post K e t T t' T'"
  shows "repr t' T'" "shape T'" "distinct (ids T')" "\<forall>i \<in> set (ids T'). i < nextNodeId t'"
    "\<forall>j. nextNodeId t' \<le> j \<longrightarrow> view t' j = None" "2 \<le> order t'" "aid T' = aid T"
    "set (ids T) \<subseteq> set (ids T')"
    "set (ids T') \<subseteq> set (ids T) \<union> {nextNodeId t ..< nextNodeId t'}"
    "nextNodeId t \<le> nextNodeId t'"
    "\<forall>j. j \<notin> set (ids T) \<longrightarrow> j < nextNodeId t \<longrightarrow> view t' j = view t j"
    "order t' = order t" "rootId t' = rootId t" "entryCount t' = entryCount t"
    "keyType t' = keyType t" "height T' \<le> height T"
    "ordered_ins K e (inorder T) (inorder T')"
  using assms unfolding ins_post_def ins_pre_def by blast+

lemma ins_preD:
  assumes "ins_pre t T"
  shows "repr t T" "shape T" "distinct (ids T)" "\<forall>i \<in> set (ids T). i < nextNodeId t"
    "\<forall>j. nextNodeId t \<le> j \<longrightarrow> view t j = None" "2 \<le> order t"
  using assms unfolding ins_pre_def by blast+

lemma ins_pre_kid:
  assumes "ins_pre t (ANode p l es ks)" and "k \<in> set ks"
  shows "ins_pre t k"
proof -
  note d = ins_preD [OF assms(1)]
  have "repr t k" using d(1) assms(2) by simp
  moreover have "shape k" using d(2) assms(2) by simp
  moreover have "distinct (ids k)" using distinct_ids_kid [OF d(3) assms(2)] .
  moreover have "\<forall>i \<in> set (ids k). i < nextNodeId t"
    using d(4) ids_kid_subset [OF assms(2), of p l es] by blast
  ultimately show ?thesis using d(5,6) unfolding ins_pre_def by blast
qed

lemma replace_kid:
  assumes pre: "ins_pre t (ANode p False es ks)" and j: "j < length ks"
    and post: "ins_post K e t (ks ! j) t1 C'"
    and lo: "0 < j \<Longrightarrow> key_le (es ! (j - 1)) e"
    and hi: "j < length es \<Longrightarrow> key_le e (es ! j)"
  shows "ins_post K e t (ANode p False es ks) t1 (ANode p False es (ks[j := C']))"
proof -
  note d = ins_preD [OF pre]
  note q = ins_postD [OF post]
  let ?Q = "ANode p False es ks" and ?Q' = "ANode p False es (ks[j := C'])"
  have Cin: "ks ! j \<in> set ks" using j by simp
  from d(2) have len: "length ks = length es + 1" by simp
  have pnC: "p \<notin> set (ids (ks ! j))" using distinct_ids_root [OF d(3) Cin] .
  have pb: "p < nextNodeId t" using d(4) by simp
  have vp: "view t1 p = Some (False, es, map aid (ks[j := C']))"
  proof -
    have "view t1 p = view t p" using q(11) pnC pb by blast
    moreover have "map aid (ks[j := C']) = map aid ks"
      using q(7) by (simp add: map_update list_update_same_conv j)
    ultimately show ?thesis using d(1) by simp
  qed
  have other: "repr t1 (ks ! a) \<and> set (ids (ks ! a)) \<inter> set (ids C') = {}"
    if a: "a < length ks" "a \<noteq> j" for a
  proof -
    have ka: "ks ! a \<in> set ks" using a by simp
    have dis: "set (ids (ks ! a)) \<inter> set (ids (ks ! j)) = {}"
      using distinct_ids_kids [OF d(3) a(1) j a(2)] .
    have bnd: "\<forall>x \<in> set (ids (ks ! a)). x < nextNodeId t"
      using d(4) ids_kid_subset [OF ka, of p False es] by blast
    have "\<forall>i \<in> set (ids (ks ! a)). view t1 i = view t i"
      using q(11) dis bnd by blast
    moreover have "repr t (ks ! a)" using d(1) ka by simp
    ultimately have "repr t1 (ks ! a)" by (rule repr_frame [rotated])
    moreover have "set (ids (ks ! a)) \<inter> set (ids C') = {}"
      using q(9) dis bnd by fastforce
    ultimately show ?thesis ..
  qed
  have nth': "(ks[j := C']) ! a = (if a = j then C' else ks ! a)" if "a < length ks" for a
    using that by (simp add: nth_list_update)
  have kids': "k = C' \<or> (\<exists>a. a < length ks \<and> a \<noteq> j \<and> k = ks ! a)" if "k \<in> set (ks[j := C'])" for k
  proof -
    from that obtain a where "a < length ks" "k = (ks[j := C']) ! a"
      by (auto simp add: in_set_conv_nth)
    then show ?thesis using nth' by (cases "a = j") auto
  qed
  have rQ': "repr t1 ?Q'"
  proof -
    have "\<forall>k \<in> set (ks[j := C']). repr t1 k" using kids' other q(1) by blast
    with vp show ?thesis by simp
  qed
  have sQ': "shape ?Q'"
  proof -
    have "\<forall>k \<in> set (ks[j := C']). shape k" using kids' d(2) q(2) by fastforce
    with len show ?thesis by simp
  qed
  have dk: "distinct (concat (map ids ks))" using d(3) by simp
  have dQ': "distinct (ids ?Q')"
  proof -
    have l': "length (map ids (ks[j := C'])) = length ks" by simp
    have n': "map ids (ks[j := C']) ! a = (if a = j then ids C' else ids (ks ! a))"
      if "a < length ks" for a using that nth' by simp
    have 1: "\<forall>a < length (map ids (ks[j := C'])). distinct (map ids (ks[j := C']) ! a)"
    proof (intro allI impI)
      fix a assume a: "a < length (map ids (ks[j := C']))"
      then have "ks ! a \<in> set ks" by simp
      then have "distinct (ids (ks ! a))" using distinct_ids_kid [OF d(3)] by blast
      with a q(3) show "distinct (map ids (ks[j := C']) ! a)" by (simp add: n' nth')
    qed
    have 2: "\<forall>a b. a < length (map ids (ks[j := C'])) \<longrightarrow> b < length (map ids (ks[j := C'])) \<longrightarrow>
        a \<noteq> b \<longrightarrow> set (map ids (ks[j := C']) ! a) \<inter> set (map ids (ks[j := C']) ! b) = {}"
    proof (intro allI impI)
      fix a b
      assume ab: "a < length (map ids (ks[j := C']))" "b < length (map ids (ks[j := C']))" "a \<noteq> b"
      then have a: "a < length ks" and b: "b < length ks" by simp_all
      show "set (map ids (ks[j := C']) ! a) \<inter> set (map ids (ks[j := C']) ! b) = {}"
      proof (cases "a = j")
        case True
        with ab(3) have "b \<noteq> j" by simp
        with other [OF b] True a b show ?thesis by (simp add: n' nth' Int_commute)
      next
        case aj: False
        show ?thesis
        proof (cases "b = j")
          case True
          with other [OF a aj] a b aj show ?thesis by (simp add: n' nth')
        next
          case False
          with aj a b distinct_ids_kids [OF d(3) a b ab(3)] show ?thesis by (simp add: n' nth')
        qed
      qed
    qed
    from 1 2 have "distinct (concat (map ids (ks[j := C'])))"
      by (simp only: distinct_concat_nth [of "map ids (ks[j := C'])"]) 
    moreover have "p \<notin> set (ids k)" if "k \<in> set (ks[j := C'])" for k
    proof -
      from kids' [OF that] show ?thesis
      proof
        assume "k = C'"
        with q(9) pnC pb show ?thesis by fastforce
      next
        assume "\<exists>a. a < length ks \<and> a \<noteq> j \<and> k = ks ! a"
        then obtain a where "a < length ks" "k = ks ! a" by blast
        then have "k \<in> set ks" by simp
        with distinct_ids_root [OF d(3)] show ?thesis by blast
      qed
    qed
    ultimately show ?thesis by auto
  qed
  have sub1: "set (ids ?Q) \<subseteq> set (ids ?Q')"
  proof
    fix x assume "x \<in> set (ids ?Q)"
    then consider "x = p" | k where "k \<in> set ks" "x \<in> set (ids k)"
      unfolding set_ids_node by blast
    then show "x \<in> set (ids ?Q')"
    proof cases
      case 1
      then show ?thesis by simp
    next
      case 2
      then obtain a where a: "a < length ks" "k = ks ! a" by (auto simp add: in_set_conv_nth)
      show ?thesis
      proof (cases "a = j")
        case True
        with 2 a q(8) have "x \<in> set (ids C')" by blast
        moreover have "C' \<in> set (ks[j := C'])" using j by (simp add: set_update_memI)
        ultimately show ?thesis unfolding set_ids_node by blast
      next
        case False
        with a have "ks ! a \<in> set (ks[j := C'])"
          by (metis length_list_update nth_list_update_neq nth_mem)
        with 2 a show ?thesis unfolding set_ids_node by blast
      qed
    qed
  qed
  have sub2: "set (ids ?Q') \<subseteq> set (ids ?Q) \<union> {nextNodeId t ..< nextNodeId t1}"
  proof
    fix x assume "x \<in> set (ids ?Q')"
    then consider "x = p" | k where "k \<in> set (ks[j := C'])" "x \<in> set (ids k)"
      unfolding set_ids_node by blast
    then show "x \<in> set (ids ?Q) \<union> {nextNodeId t ..< nextNodeId t1}"
    proof cases
      case 1
      then show ?thesis by simp
    next
      case 2
      from kids' [OF 2(1)] show ?thesis
      proof
        assume "k = C'"
        with 2 q(9) have "x \<in> set (ids (ks ! j)) \<union> {nextNodeId t ..< nextNodeId t1}" by blast
        with Cin show ?thesis unfolding set_ids_node by blast
      next
        assume "\<exists>a. a < length ks \<and> a \<noteq> j \<and> k = ks ! a"
        then have "k \<in> set ks" by auto
        with 2 show ?thesis unfolding set_ids_node by blast
      qed
    qed
  qed
  have bQ': "\<forall>i \<in> set (ids ?Q'). i < nextNodeId t1"
    using sub2 d(4) q(10) by fastforce
  have pre': "ins_pre t1 ?Q'"
    unfolding ins_pre_def using rQ' sQ' dQ' bQ' q(5,6) by blast
  have frame: "\<forall>x. x \<notin> set (ids ?Q) \<longrightarrow> x < nextNodeId t \<longrightarrow> view t1 x = view t x"
    using q(11) ids_kid_subset [OF Cin, of p False es] by blast
  have hQ': "height ?Q' \<le> height ?Q"
  proof -
    obtain h where h: "height ?Q = Suc h" by simp
    then have "height ?Q \<le> Suc h" by simp
    then have kh: "\<forall>k \<in> set ks. height k \<le> h" by (simp only: height_le_iff)
    have "\<forall>k \<in> set (ks[j := C']). height k \<le> h"
    proof
      fix k assume "k \<in> set (ks[j := C'])"
      from kids' [OF this] show "height k \<le> h"
      proof
        assume "k = C'"
        with q(16) kh Cin show ?thesis by (meson le_trans)
      next
        assume "\<exists>a. a < length ks \<and> a \<noteq> j \<and> k = ks ! a"
        then have "k \<in> set ks" by auto
        with kh show ?thesis by blast
      qed
    qed
    then have "height ?Q' \<le> Suc h" by (simp only: height_le_iff)
    with h show ?thesis by simp
  qed
  have oi: "ordered_ins K e (inorder ?Q) (inorder ?Q')"
  proof -
    have "ordered_ins K e (interleave (map inorder ks) es)
        (interleave ((map inorder ks)[j := inorder C']) es)"
      by (rule ordered_ins_descend) (use len j q(17) lo hi in simp_all)
    then show ?thesis by (simp add: map_update)
  qed
  show ?thesis
    unfolding ins_post_def
    using pre' sub1 sub2 q(10,12,13,14,15) frame hQ' oi by simp
qed

lemma set_ids_split_at:
  "j < length (akids P) \<Longrightarrow> set (ids (split_at m sid j P)) = insert sid (set (ids P))"
proof -
  assume "j < length (akids P)"
  then have "mset (ids (split_at m sid j P)) = mset (sid # ids P)"
    by (simp add: mset_ids_split_at)
  then have "set (ids (split_at m sid j P)) = set (sid # ids P)" by (rule mset_eq_setD)
  then show ?thesis by simp
qed

lemma insertNonFull_leaf:
  assumes pre: "ins_pre t (ANode p True es ks)"
  shows "\<exists>t' T'. insertNonFull (Suc fuel) t p e = Some (Inr t') \<and>
            ins_post K e t (ANode p True es ks) t' T'"
proof -
  note d = ins_preD [OF pre]
  from d(2) have ks: "ks = []" by simp
  define pos where "pos = nat (scanBack (key e) es (int (length es) - 1) + 1)"
  note sp = scanBack_pos [of "key e" es, folded pos_def]
  from d(1) have vp: "view t p = Some (True, es, [])" by (simp add: ks)
  from view_getNode [OF vp] obtain node where
    node: "getNode t p = Inr node" "isLeaf node" "entries node = es" by auto
  define es' where "es' = take pos es @ e # drop pos es"
  have ia: "insertAt es (scanBack (key e) es (int (length es) - 1) + 1) e = Inr es'"
    using sp by (simp add: insertAt_def es'_def)
  define t' where "t' = modifyNode t p (\<lambda>n. n\<lparr>entries := es'\<rparr>)"
  have run: "insertNonFull (Suc fuel) t p e = Some (Inr t')"
    using node ia by (simp add: t'_def)
  have vt': "view t' = (view t)(p \<mapsto> (True, es', []))"
    using vp by (auto simp add: t'_def view_modify_entries_const fun_eq_iff)
  let ?T' = "ANode p True es' []"
  have pre': "ins_pre t' ?T'"
    unfolding ins_pre_def using d vt' by (auto simp add: t'_def ks)
  have oi: "ordered_ins K e es es'"
    unfolding es'_def by (rule ordered_ins_leaf) (use sp in auto)
  have "ins_post K e t (ANode p True es ks) t' ?T'"
    unfolding ins_post_def using pre' oi vt' by (simp add: ks t'_def)
  with run show ?thesis by blast
qed

lemma insertNonFull_tree:
  "ins_pre t T \<Longrightarrow> height T \<le> fuel \<Longrightarrow>
   \<exists>t' T'. insertNonFull fuel t (aid T) e = Some (Inr t') \<and> ins_post K e t T t' T'"
proof (induction fuel arbitrary: t T)
  case 0
  then show ?case by (cases T) simp
next
  case (Suc fuel)
  obtain p l es ks where T: "T = ANode p l es ks" by (cases T)
  show ?case
  proof (cases l)
    case True
    with Suc.prems(1) T show ?thesis using insertNonFull_leaf [of t p es ks fuel e K] by simp
  next
    case False
    with T have T: "T = ANode p False es ks" by simp
    note pre = Suc.prems(1) [unfolded T]
    note d = ins_preD [OF pre]
    from d(2) have len: "length ks = length es + 1" by simp
    define pos where "pos = nat (scanBack (key e) es (int (length es) - 1) + 1)"
    note sp = scanBack_pos [of "key e" es, folded pos_def]
    from sp len have pk: "pos < length ks" by simp
    then have Cin: "ks ! pos \<in> set ks" by simp
    from d(1) have vp: "view t p = Some (False, es, map aid ks)" by simp
    from view_getNode [OF vp] obtain node where
      node: "getNode t p = Inr node" "\<not> isLeaf node" "entries node = es"
        "children node = map aid ks" by auto
    have ci: "elemAtInt (map aid ks) (scanBack (key e) es (int (length es) - 1) + 1) =
        Inr (aid (ks ! pos))"
      using sp pk by (simp add: elemAtInt_def elemAt_def)
    have preC: "ins_pre t (ks ! pos)" using ins_pre_kid [OF pre Cin] .
    from ins_preD(1) [OF preC] have "view t (aid (ks ! pos)) =
        Some (aleaf (ks ! pos), aents (ks ! pos), map aid (akids (ks ! pos)))"
      by (rule repr_view)
    from view_getNode [OF this] obtain child where
      child: "getNode t (aid (ks ! pos)) = Inr child" "entries child = aents (ks ! pos)" by auto
    have hk: "\<forall>k \<in> set ks. height k \<le> fuel"
      using Suc.prems(2) unfolding T by (simp only: height_le_iff)
    have lo: "0 < pos \<Longrightarrow> key_le (es ! (pos - 1)) e"
      using sp compareValues_total unfolding key_le_def by blast
    have hi: "pos < length es \<Longrightarrow> key_le e (es ! pos)"
      using sp unfolding key_le_def by (simp add: less_imp_le)
    show ?thesis
    proof (cases "order t - 1 \<le> int (length (aents (ks ! pos)))")
      case nf: False
      from Suc.IH [OF preC] hk Cin obtain t1 C' where
        r: "insertNonFull fuel t (aid (ks ! pos)) e = Some (Inr t1)"
        and post: "ins_post K e t (ks ! pos) t1 C'" by blast
      have run: "insertNonFull (Suc fuel) t p e = Some (Inr t1)"
        using node ci child nf r by (simp add: Let_def)
      from replace_kid [OF pre pk post lo hi]
      have "ins_post K e t (ANode p False es ks) t1 (ANode p False es (ks[pos := C']))" .
      with run show ?thesis unfolding T by auto
    next
      case full: True
      define m where "m = nat ((order t - 1) div 2)"
      define sid where "sid = nextNodeId t"
      let ?P = "ANode p False es ks"
      let ?P' = "split_at m sid pos ?P"
      have jP: "pos < length (akids ?P)" using pk by simp
      have fullP: "order t - 1 \<le> int (length (aents (akids ?P ! pos)))" using full by simp
      from splitChild_tree [OF pre _ jP fullP m_def sid_def]
      obtain ts where ts: "splitChild t p (int pos) = Inr ts" "ins_pre ts ?P'"
        "nextNodeId ts = nextNodeId t + 1"
        "\<forall>x. x \<notin> set (ids ?P) \<longrightarrow> x \<noteq> sid \<longrightarrow> view ts x = view t x"
        "order ts = order t" "rootId ts = rootId t" "entryCount ts = entryCount t"
        "keyType ts = keyType t" "m < length (aents (ks ! pos))"
        by auto
      define sep where "sep = aents (ks ! pos) ! m"
      define es' where "es' = take pos es @ sep # drop pos es"
      define ks' where "ks' = take pos ks @ split_left m (ks ! pos) # split_right m sid (ks ! pos)
          # drop (Suc pos) ks"
      have P': "?P' = ANode p False es' ks'"
        by (simp add: split_at_def es'_def ks'_def sep_def)
      note pre' = ts(2) [unfolded P']
      note d' = ins_preD [OF pre']
      from d'(1) have vp': "view ts p = Some (False, es', map aid ks')" by simp
      from view_getNode [OF vp'] obtain nas where
        nas: "getNode ts p = Inr nas" "entries nas = es'" "children nas = map aid ks'" by auto
      have lpos: "length (take pos es) = pos" using sp by simp
      have se: "elemAtInt es' (int pos) = Inr sep"
        using sp lpos by (simp add: elemAtInt_def elemAt_def es'_def nth_append)
      define i' where "i' = (if 0 < compareValues (key e) (key sep) then pos + 1 else pos)"
      have lks': "length ks' = length ks + 1" using pk by (simp add: ks'_def)
      have i'k: "i' < length ks'" using pk lks' by (simp add: i'_def)
      have ci': "elemAtInt (map aid ks')
          (if 0 < compareValues (key e) (key sep) then int pos + 1 else int pos) =
          Inr (aid (ks' ! i'))"
        using i'k by (auto simp add: elemAtInt_def elemAt_def i'_def nat_add_distrib)
      have Cin': "ks' ! i' \<in> set ks'" using i'k by simp
      have preC': "ins_pre ts (ks' ! i')" using ins_pre_kid [OF pre' Cin'] .
      have hP': "height (ANode p False es' ks') \<le> Suc fuel"
        using le_trans [OF height_split_at [OF jP, of m sid, unfolded P'] Suc.prems(2) [unfolded T]] .
      then have hk': "\<forall>k \<in> set ks'. height k \<le> fuel" by (simp only: height_le_iff)
      from Suc.IH [OF preC'] hk' Cin' obtain t1 C' where
        r: "insertNonFull fuel ts (aid (ks' ! i')) e = Some (Inr t1)"
        and post: "ins_post K e ts (ks' ! i') t1 C'" by blast
      have run: "insertNonFull (Suc fuel) t p e = Some (Inr t1)"
        using node ci child full sp ts(1) nas se ci' r by (simp add: Let_def)
      have les': "length es' = length es + 1" by (simp add: es'_def)
      have nth_lo: "es' ! a = es ! a" if "a < pos" for a
        using that lpos by (simp add: es'_def nth_append)
      have nth_sep: "es' ! pos = sep" using lpos by (simp add: es'_def nth_append)
      have nth_hi: "es' ! (pos + 1) = es ! pos" if "pos < length es"
        using that lpos by (simp add: es'_def nth_append nth_Cons')
      have lo': "0 < i' \<Longrightarrow> key_le (es' ! (i' - 1)) e"
      proof -
        assume "0 < i'"
        show ?thesis
        proof (cases "0 < compareValues (key e) (key sep)")
          case True
          then have "key_le sep e" unfolding key_le_def by (rule compareValues_total')
          with True nth_sep show ?thesis by (simp add: i'_def)
        next
          case False
          with \<open>0 < i'\<close> have "0 < pos" "i' = pos" by (simp_all add: i'_def)
          with lo nth_lo [of "pos - 1"] show ?thesis by simp
        qed
      qed
      have hi': "i' < length es' \<Longrightarrow> key_le e (es' ! i')"
      proof -
        assume a: "i' < length es'"
        show ?thesis
        proof (cases "0 < compareValues (key e) (key sep)")
          case True
          with a les' have "pos < length es" "i' = pos + 1" by (simp_all add: i'_def)
          with hi nth_hi show ?thesis by simp
        next
          case False
          then have "key_le e sep" unfolding key_le_def by simp
          with False nth_sep show ?thesis by (simp add: i'_def)
        qed
      qed
      from replace_kid [OF pre' i'k post lo' hi']
      have post': "ins_post K e ts (ANode p False es' ks') t1 (ANode p False es' (ks'[i' := C']))" .
      note q = ins_postD [OF post']
      let ?T' = "ANode p False es' (ks'[i' := C'])"
      have idsP': "set (ids (ANode p False es' ks')) = insert sid (set (ids ?P))"
        using set_ids_split_at [OF jP, of m sid] unfolding P' .
      have inP': "inorder (ANode p False es' ks') = inorder ?P"
        using inorder_split_at [of ?P pos m sid] d(2) pk ts(9) unfolding P' by simp
      have hP2: "height (ANode p False es' ks') \<le> height ?P"
        using height_split_at [OF jP, of m sid] unfolding P' .
      have sidb: "sid \<notin> set (ids ?P)" using d(4) by (auto simp add: sid_def)
      have a1: "set (ids ?P) \<subseteq> set (ids ?T')" using q(8) idsP' by blast
      have a2: "set (ids ?T') \<subseteq> set (ids ?P) \<union> {nextNodeId t ..< nextNodeId t1}"
      proof
        fix x assume "x \<in> set (ids ?T')"
        with q(9) have "x \<in> set (ids (ANode p False es' ks')) \<or> x \<in> {nextNodeId ts ..< nextNodeId t1}"
          by blast
        then show "x \<in> set (ids ?P) \<union> {nextNodeId t ..< nextNodeId t1}"
          using idsP' ts(3) q(10) by (auto simp add: sid_def)
      qed
      have a3: "nextNodeId t \<le> nextNodeId t1" using q(10) ts(3) by simp
      have a4: "\<forall>x. x \<notin> set (ids ?P) \<longrightarrow> x < nextNodeId t \<longrightarrow> view t1 x = view t x"
      proof (intro allI impI)
        fix x assume x: "x \<notin> set (ids ?P)" "x < nextNodeId t"
        then have xs: "x \<noteq> sid" by (simp add: sid_def)
        with x ts(4) have 1: "view ts x = view t x" by blast
        from x xs idsP' have "x \<notin> set (ids (ANode p False es' ks'))" by blast
        moreover have "x < nextNodeId ts" using x ts(3) by simp
        ultimately have "view t1 x = view ts x" using q(11) by blast
        with 1 show "view t1 x = view t x" by simp
      qed
      have a5: "height ?T' \<le> height ?P" using q(16) hP2 by (rule le_trans)
      have a6: "ordered_ins K e (inorder ?P) (inorder ?T')" using q(17) unfolding inP' .
      have pre1: "ins_pre t1 ?T'" unfolding ins_pre_def using q(1-6) by blast
      have "ins_post K e t ?P t1 ?T'"
        unfolding ins_post_def
        using pre1 a1 a2 a3 a4 a5 a6 q(12-15) ts(5-8) by simp
      with run show ?thesis unfolding T by auto
    qed
  qed
qed

section \<open>insert keeps the tree invariant\<close>

lemma view_rootId_update [simp]: "view (t\<lparr>rootId := x\<rparr>) = view t"
  by (rule ext) (simp add: view_def)

lemma view_entryCount_update [simp]: "view (t\<lparr>entryCount := x\<rparr>) = view t"
  by (rule ext) (simp add: view_def)

lemma repr_cong: "view t' = view t \<Longrightarrow> repr t' T = repr t T"
  by (induction T) simp

lemma repr_entryCount_update [simp]: "repr (t\<lparr>entryCount := x\<rparr>) T = repr t T"
  by (rule repr_cong) simp

lemma repr_rootId_update [simp]: "repr (t\<lparr>rootId := x\<rparr>) T = repr t T"
  by (rule repr_cong) simp

lemma ins_pre_cong:
  assumes "view t' = view t" and "nextNodeId t' = nextNodeId t" and "order t' = order t"
  shows "ins_pre t' T = ins_pre t T"
proof -
  have "repr t' T = repr t T" using assms(1) by (rule repr_cong)
  then show ?thesis unfolding ins_pre_def by (simp add: assms)
qed

lemma tree_inv_pre: "tree_inv t T \<Longrightarrow> 2 \<le> order t \<Longrightarrow> ins_pre t T"
  unfolding tree_inv_def ins_pre_def by blast

lemma BTree_insert_tree:
  assumes inv: "tree_inv t T" and ord: "2 \<le> order t" and fuel: "entryCount t + 2 \<le> fuel"
  shows "\<exists>t' T'. BTree_insert fuel t k off len seq = Some (Inr t') \<and> tree_inv t' T' \<and>
     order t' = order t \<and> keyType t' = keyType t \<and> entryCount t' = entryCount t + 1 \<and>
     ordered_ins K (entry_of (Insert k off len seq)) (inorder T) (inorder T')"
proof -
  define e where "e = entry_of (Insert k off len seq)"
  have e: "\<lparr>key = k, dataOffset = off, dataLength = len, sequence = seq\<rparr> = e"
    by (simp add: e_def)
  from inv have rT: "repr t T" and aT: "aid T = rootId t" and sT: "shape T"
    and dT: "distinct (ids T)" and bT: "\<forall>i \<in> set (ids T). i < nextNodeId t"
    and fT: "\<forall>j. nextNodeId t \<le> j \<longrightarrow> view t j = None"
    and cT: "length (inorder T) = entryCount t" and hT: "height T \<le> entryCount t + 1"
    unfolding tree_inv_def by blast+
  from repr_view [OF rT] aT
  have vr: "view t (rootId t) = Some (aleaf T, aents T, map aid (akids T))" by simp
  from view_getNode [OF vr] obtain rootNode where
    rn: "getNode t (rootId t) = Inr rootNode" "entries rootNode = aents T" by auto
  have fin: "\<exists>t' T'. (case insertNonFull fuel u (rootId u) e of None \<Rightarrow> None
        | Some (Inl x) \<Rightarrow> Some (Inl x)
        | Some (Inr t'') \<Rightarrow> Some (Inr (t''\<lparr>entryCount := entryCount t'' + 1\<rparr>))) = Some (Inr t') \<and>
      tree_inv t' T' \<and> order t' = order t \<and> keyType t' = keyType t \<and>
      entryCount t' = entryCount t + 1 \<and> ordered_ins K e (inorder T) (inorder T')"
    if pre: "ins_pre u U" and au: "aid U = rootId u" and hu: "height U \<le> entryCount t + 2"
      and iu: "inorder U = inorder T" and fu: "order u = order t" "keyType u = keyType t"
        "entryCount u = entryCount t" for u U
  proof -
    from hu fuel have "height U \<le> fuel" by simp
    from insertNonFull_tree [OF pre this, of e K] obtain t1 T' where
      r: "insertNonFull fuel u (aid U) e = Some (Inr t1)" and post: "ins_post K e u U t1 T'"
      by blast
    note q = ins_postD [OF post]
    define t' where "t' = t1\<lparr>entryCount := entryCount t1 + 1\<rparr>"
    have "length (inorder T') = Suc (length (inorder T))"
      using ordered_ins_length [OF q(17)] iu by simp
    moreover have "height T' \<le> entryCount t + 2" using q(16) hu by simp
    ultimately have "tree_inv t' T'"
      unfolding tree_inv_def using q(1-5) q(7) q(13,14) au fu(3) cT
      by (simp add: t'_def)
    moreover have "order t' = order t" "keyType t' = keyType t" "entryCount t' = entryCount t + 1"
      using q(12,14,15) fu by (simp_all add: t'_def)
    moreover have "ordered_ins K e (inorder T) (inorder T')" using q(17) iu by simp
    ultimately show ?thesis using r au by (auto simp add: t'_def)
  qed
  show ?thesis
  proof (cases "order t - 1 \<le> int (length (aents T))")
    case False
    have pT: "ins_pre t T" using tree_inv_pre [OF inv ord] .
    have hT2: "height T \<le> entryCount t + 2" using hT by simp
    from fin [OF pT aT hT2 refl refl refl refl] obtain t' T' where
      res: "(case insertNonFull fuel t (rootId t) e of None \<Rightarrow> None
        | Some (Inl x) \<Rightarrow> Some (Inl x)
        | Some (Inr t'') \<Rightarrow> Some (Inr (t''\<lparr>entryCount := entryCount t'' + 1\<rparr>))) = Some (Inr t')"
      and rest: "tree_inv t' T'" "order t' = order t" "keyType t' = keyType t"
        "entryCount t' = entryCount t + 1" "ordered_ins K e (inorder T) (inorder T')"
      by blast
    have "BTree_insert fuel t k off len seq = Some (Inr t')"
      unfolding BTree_insert_def e
      using rn False res by (simp add: Let_def)
    with rest show ?thesis unfolding e_def by blast
  next
    case True
    define nr where "nr = nextNodeId t"
    define t1 where "t1 = snd (createNode t False 0)"
    have cn: "createNode t False 0 = (nr, t1)"
      by (simp add: t1_def nr_def createNode_def Let_def)
    note r1 = createNode_result [OF cn]
    define t2 where "t2 = modifyNode t1 nr (\<lambda>n. n\<lparr>children := children n @ [rootId t]\<rparr>)"
    define t3 where "t3 = modifyNode t2 (rootId t) (\<lambda>n. n\<lparr>parentId := nr\<rparr>)"
    have v3: "view t3 = (view t)(nr \<mapsto> (False, [], [rootId t]))"
      using r1 by (auto simp add: t3_def t2_def fun_eq_iff nr_def
          view_modify_children [where g = "\<lambda>cs. cs @ [rootId t]"])
    have rb: "rootId t < nr" using bT aT aid_in_ids [of T] by (auto simp add: nr_def)
    have "view t2 (rootId t) = view t (rootId t)"
      using v3 rb by (simp add: t3_def)
    with vr have "view t2 (rootId t) = Some (aleaf T, aents T, map aid (akids T))" by simp
    from view_getNode [OF this] obtain rn2 where rn2: "getNode t2 (rootId t) = Inr rn2" by blast
    have f3: "nextNodeId t3 = nr + 1" "order t3 = order t" "rootId t3 = rootId t"
      "entryCount t3 = entryCount t" "keyType t3 = keyType t"
      using r1 by (simp_all add: t3_def t2_def nr_def)
    let ?P = "ANode nr False [] [T]"
    have rT3: "repr t3 T"
    proof (rule repr_frame [OF rT])
      show "\<forall>i \<in> set (ids T). view t3 i = view t i" using bT by (auto simp add: v3 nr_def)
    qed
    have preP: "ins_pre t3 ?P"
      unfolding ins_pre_def
      using rT3 sT dT bT fT ord f3 aT by (auto simp add: v3 nr_def)
    define m where "m = nat ((order t3 - 1) div 2)"
    define sid where "sid = nextNodeId t3"
    have jP: "0 < length (akids ?P)" by simp
    have fullP: "order t3 - 1 \<le> int (length (aents (akids ?P ! 0)))" using True f3 by simp
    from splitChild_tree [OF preP _ jP fullP m_def sid_def]
    obtain t4 where t4: "splitChild t3 nr (int 0) = Inr t4" "ins_pre t4 (split_at m sid 0 ?P)"
        "nextNodeId t4 = nextNodeId t3 + 1"
        "order t4 = order t3" "rootId t4 = rootId t3" "entryCount t4 = entryCount t3"
        "keyType t4 = keyType t3" "m < length (aents T)"
      by auto
    define t5 where "t5 = t4\<lparr>rootId := nr\<rparr>"
    let ?P' = "split_at m sid 0 ?P"
    have "ins_pre t5 ?P' = ins_pre t4 ?P'" by (rule ins_pre_cong) (simp_all add: t5_def)
    with t4(2) have pre5: "ins_pre t5 ?P'" by simp
    have a5: "aid ?P' = rootId t5" by (simp add: t5_def split_at_def)
    have "height ?P' \<le> height ?P" by (rule height_split_at) simp
    then have h5: "height ?P' \<le> entryCount t + 2" using hT by simp
    have i5: "inorder ?P' = inorder T"
      using inorder_split_at [of ?P 0 m sid] sT t4(8) by simp
    have f5: "order t5 = order t" "keyType t5 = keyType t" "entryCount t5 = entryCount t"
      using t4 f3 by (simp_all add: t5_def)
    from fin [OF pre5 a5 h5 i5 f5] obtain t' T' where
      res: "(case insertNonFull fuel t5 (rootId t5) e of None \<Rightarrow> None
        | Some (Inl x) \<Rightarrow> Some (Inl x)
        | Some (Inr t'') \<Rightarrow> Some (Inr (t''\<lparr>entryCount := entryCount t'' + 1\<rparr>))) = Some (Inr t')"
      and rest: "tree_inv t' T'" "order t' = order t" "keyType t' = keyType t"
        "entryCount t' = entryCount t + 1" "ordered_ins K e (inorder T) (inorder T')"
      by blast
    have "BTree_insert fuel t k off len seq = Some (Inr t')"
      unfolding BTree_insert_def e
      using rn True cn rn2 [unfolded t2_def] t4(1) [unfolded t3_def t2_def] res [unfolded t5_def]
      by (simp add: Let_def)
    with rest show ?thesis unfolding e_def by blast
  qed
qed

section \<open>Runs keep the tree invariant\<close>

lemma fresh_tree_inv:
  assumes "createNode (t0\<lparr>nodes := Map.empty, entryCount := 0, nextNodeId := n\<rparr>) True 0 = (rid, t1)"
  shows "tree_inv (t1\<lparr>rootId := rid\<rparr>) (ANode n True [] []) \<and>
     entryCount (t1\<lparr>rootId := rid\<rparr>) = 0 \<and> order (t1\<lparr>rootId := rid\<rparr>) = order t0 \<and>
     keyType (t1\<lparr>rootId := rid\<rparr>) = keyType t0"
proof -
  note r = createNode_result [OF assms]
  have v0: "view (t0\<lparr>nodes := Map.empty, entryCount := 0, nextNodeId := n\<rparr>) = (\<lambda>_. None)"
    by (rule ext) (simp add: view_def)
  from r have v: "view t1 = (\<lambda>_. None)(n \<mapsto> (True, [], []))" by (simp add: v0)
  from r have f: "rid = n" "nextNodeId t1 = n + 1" "entryCount t1 = 0" "order t1 = order t0"
    "keyType t1 = keyType t0" by simp_all
  show ?thesis unfolding tree_inv_def using f by (simp add: v)
qed

lemma BTree_new_inv:
  "tree_inv (BTree_new kt ord n) (ANode n True [] []) \<and> entryCount (BTree_new kt ord n) = 0 \<and>
   order (BTree_new kt ord n) = ord \<and> keyType (BTree_new kt ord n) = kt"
proof -
  let ?t0 = "\<lparr>keyType = kt, order = ord, nodes = Map.empty, rootId = 0, nextNodeId = n,
                entryCount = 0\<rparr>"
  obtain rid t1 where c: "createNode ?t0 True 0 = (rid, t1)" by (cases "createNode ?t0 True 0")
  have "?t0\<lparr>nodes := Map.empty, entryCount := 0, nextNodeId := n\<rparr> = ?t0" by simp
  with c have "createNode (?t0\<lparr>nodes := Map.empty, entryCount := 0, nextNodeId := n\<rparr>) True 0 = (rid, t1)"
    by simp
  from fresh_tree_inv [OF this] c show ?thesis by (simp add: BTree_new_def)
qed

lemma BTree_clear_inv:
  "tree_inv (BTree_clear t) (ANode 1 True [] []) \<and> entryCount (BTree_clear t) = 0 \<and>
   order (BTree_clear t) = order t \<and> keyType (BTree_clear t) = keyType t"
proof -
  obtain rid t1 where
    c: "createNode (t\<lparr>nodes := Map.empty, entryCount := 0, nextNodeId := 1\<rparr>) True 0 = (rid, t1)"
    by (cases "createNode (t\<lparr>nodes := Map.empty, entryCount := 0, nextNodeId := 1\<rparr>) True 0")
  from fresh_tree_inv [OF this] c show ?thesis by (simp add: BTree_clear_def)
qed

lemma tree_inv_count: "tree_inv t T \<Longrightarrow> length (inorder T) = entryCount t"
  unfolding tree_inv_def by blast

lemma BTree_run_tree:
  assumes "tree_inv t T" and "2 \<le> order t" and "entryCount t + length ops < fuel"
  shows "\<exists>t' T'. BTree_run fuel t ops = Some (Inr t') \<and> tree_inv t' T' \<and>
     order t' = order t \<and> keyType t' = keyType t \<and>
     mset (inorder T') = mset (live_entries (inorder T) ops) \<and>
     (consistent K \<and> key ` set (inorder T) \<subseteq> K \<and> key ` entry_of ` set ops \<subseteq> K \<and>
      sorted_wrt key_le (inorder T) \<longrightarrow> sorted_wrt key_le (inorder T'))"
  using assms
proof (induction ops arbitrary: t T)
  case Nil
  then show ?case by auto
next
  case (Cons x ops)
  show ?case
  proof (cases x)
    case (Insert k off len seq)
    have fuel1: "entryCount t + 2 \<le> fuel" using Cons.prems(3) by simp
    from BTree_insert_tree [OF Cons.prems(1,2) fuel1, of k off len seq K] obtain t1 T1 where
      r: "BTree_insert fuel t k off len seq = Some (Inr t1)" and inv1: "tree_inv t1 T1"
      and f1: "order t1 = order t" "keyType t1 = keyType t" "entryCount t1 = entryCount t + 1"
      and oi: "ordered_ins K (entry_of x) (inorder T) (inorder T1)"
      unfolding Insert by blast
    have o1: "2 \<le> order t1" using f1 Cons.prems(2) by simp
    have fu: "entryCount t1 + length ops < fuel" using f1 Cons.prems(3) by simp
    from Cons.IH [OF inv1 o1 fu] obtain t' T' where
      r': "BTree_run fuel t1 ops = Some (Inr t')" and inv': "tree_inv t' T'"
      and f': "order t' = order t1" "keyType t' = keyType t1"
      and ms: "mset (inorder T') = mset (live_entries (inorder T1) ops)"
      and so: "consistent K \<and> key ` set (inorder T1) \<subseteq> K \<and> key ` entry_of ` set ops \<subseteq> K \<and>
        sorted_wrt key_le (inorder T1) \<longrightarrow> sorted_wrt key_le (inorder T')"
      by blast
    have run: "BTree_run fuel t (x # ops) = Some (Inr t')" using r r' by (simp add: Insert)
    have m1: "mset (inorder T1) = mset (inorder T @ [entry_of x])"
      using ordered_ins_mset [OF oi] by simp
    have live_mset: "mset (live_entries a ops) = mset (live_entries b ops)" if "mset a = mset b" for a b
      using that
    proof (induction ops arbitrary: a b)
      case Nil
      then show ?case by simp
    next
      case (Cons y ys)
      show ?case
      proof (cases y)
        case Insert
        then show ?thesis using Cons.IH [of "a @ [entry_of y]" "b @ [entry_of y]"] Cons.prems by simp
      next
        case Clear
        then show ?thesis by simp
      qed
    qed
    have ms': "mset (inorder T') = mset (live_entries (inorder T) (x # ops))"
      using ms live_mset [OF m1] by (simp add: Insert)
    have so': "sorted_wrt key_le (inorder T')"
      if h: "consistent K" "key ` set (inorder T) \<subseteq> K" "key ` entry_of ` set (x # ops) \<subseteq> K"
        "sorted_wrt key_le (inorder T)"
    proof -
      from h(3) have kx: "key (entry_of x) \<in> K" and kops: "key ` entry_of ` set ops \<subseteq> K" by auto
      have s1: "sorted_wrt key_le (inorder T1)"
        using ordered_ins_sorted [OF oi h(1) kx h(2) h(4)] .
      have "set (inorder T1) = insert (entry_of x) (set (inorder T))"
        using mset_eq_setD [OF m1] by simp
      with h(2) kx have "key ` set (inorder T1) \<subseteq> K" by auto
      with so h(1) kops s1 show ?thesis by blast
    qed
    from run inv' f' f1 ms' so' show ?thesis by auto
  next
    case Clear
    note c = BTree_clear_inv [of t]
    have o1: "2 \<le> order (BTree_clear t)" using c Cons.prems(2) by simp
    have fu: "entryCount (BTree_clear t) + length ops < fuel" using c Cons.prems(3) by simp
    from c have inv1: "tree_inv (BTree_clear t) (ANode 1 True [] [])" by blast
    from Cons.IH [OF inv1 o1 fu] obtain t' T' where
      r': "BTree_run fuel (BTree_clear t) ops = Some (Inr t')" and inv': "tree_inv t' T'"
      and f': "order t' = order (BTree_clear t)" "keyType t' = keyType (BTree_clear t)"
      and ms: "mset (inorder T') = mset (live_entries (inorder (ANode 1 True [] [])) ops)"
      and so: "consistent K \<and> key ` set (inorder (ANode 1 True [] [])) \<subseteq> K \<and>
        key ` entry_of ` set ops \<subseteq> K \<and>
        sorted_wrt key_le (inorder (ANode 1 True [] [])) \<longrightarrow> sorted_wrt key_le (inorder T')"
      by blast
    have run: "BTree_run fuel t (x # ops) = Some (Inr t')" using r' by (simp add: Clear)
    have ms': "mset (inorder T') = mset (live_entries (inorder T) (x # ops))"
      using ms by (simp add: Clear)
    have so': "sorted_wrt key_le (inorder T')"
      if "consistent K" "key ` entry_of ` set (x # ops) \<subseteq> K"
      using so that by auto
    from run inv' f' c ms' so' show ?thesis by auto
  qed
qed

section \<open>The queries on a represented tree\<close>

lemma repr_getNode:
  "repr t (ANode i l es ks) \<Longrightarrow>
     \<exists>n. getNode t i = Inr n \<and> isLeaf n = l \<and> entries n = es \<and> children n = map aid ks"
  by (auto simp add: view_def getNode_def core_def split: option.splits)

subsection \<open>all\<close>

lemma collectLoop_leaf:
  "isLeaf node \<Longrightarrow> collectLoop fuel t node i acc = Some (Inr (acc @ drop i (entries node)))"
proof (induction "length (entries node) - i" arbitrary: i acc)
  case 0
  then show ?case by (simp add: collectLoop.simps)
next
  case (Suc d)
  then have lt: "i < length (entries node)" by simp
  from Suc(2) have "d = length (entries node) - (i + 1)" by simp
  from Suc(1) [OF this Suc(3)] lt show ?case
    by (subst collectLoop.simps) (simp add: Suc(3) Cons_nth_drop_Suc)
qed

lemma collectLoop_node:
  assumes nl: "\<not> isLeaf node" and ch: "children node = map aid ks" and es: "entries node = es"
    and len: "length ks = length es + 1"
    and ih: "\<And>k acc. k \<in> set ks \<Longrightarrow> collectAll fuel t (aid k) acc = Some (Inr (acc @ inorder k))"
  shows "i \<le> length es \<Longrightarrow> collectLoop fuel t node i acc =
     Some (Inr (acc @ concat (map (\<lambda>j. inorder (ks ! j) @ [es ! j]) [i..<length es])))"
proof (induction "length es - i" arbitrary: i acc)
  case 0
  then show ?case using es by (simp add: collectLoop.simps)
next
  case (Suc d)
  then have lt: "i < length es" by simp
  then have ik: "ks ! i \<in> set ks" using len by simp
  from Suc(2) have d: "d = length es - (i + 1)" by simp
  have le: "i + 1 \<le> length es" using lt by simp
  note step = Suc(1) [OF d le]
  show ?case
    apply (subst collectLoop.simps)
    using lt nl ch es len ih [OF ik] step
    apply (simp add: elemAt_def upt_conv_Cons)
    done
qed

lemma collectAll_repr:
  "repr t T \<Longrightarrow> shape T \<Longrightarrow> height T \<le> fuel \<Longrightarrow>
   collectAll fuel t (aid T) acc = Some (Inr (acc @ inorder T))"
proof (induction T arbitrary: fuel acc)
  case (ANode i l es ks)
  from ANode.prems(3) obtain f where fuel: "fuel = Suc f" by (cases fuel) auto
  from repr_getNode [OF ANode.prems(1)] obtain n where
    n: "getNode t i = Inr n" "isLeaf n = l" "entries n = es" "children n = map aid ks" by blast
  show ?case
  proof (cases l)
    case True
    with ANode.prems(2) have "ks = []" by simp
    with True n show ?thesis by (simp add: fuel collectLoop_leaf)
  next
    case False
    with ANode.prems(2) have len: "length ks = length es + 1" by simp
    have ih: "collectAll f t (aid k) acc' = Some (Inr (acc' @ inorder k))" if "k \<in> set ks" for k acc'
    proof -
      from that ANode.prems have "repr t k" "shape k" by auto
      moreover have "height k \<le> f" using that ANode.prems(3) fuel by simp
      ultimately show ?thesis using ANode.IH [OF that] by blast
    qed
    have nl: "\<not> isLeaf n" using n False by simp
    have loop: "collectLoop f t n 0 acc =
       Some (Inr (acc @ concat (map (\<lambda>j. inorder (ks ! j) @ [es ! j]) [0..<length es])))"
      using collectLoop_node [OF nl n(4) n(3) len ih, of 0 acc] by simp
    from len have ne: "ks \<noteq> []" by auto
    then have lastk: "last ks \<in> set ks" by simp
    have lk: "children n ! (length (children n) - Suc 0) = aid (last ks)"
      using ne by (simp add: n(4) last_conv_nth)
    have lt: "length (entries n) < length (children n)" using len n by simp
    have "collectAll (Suc f) t i acc =
       collectAll f t (aid (last ks)) (acc @ concat (map (\<lambda>j. inorder (ks ! j) @ [es ! j]) [0..<length es]))"
      by (simp add: n(1) loop nl lt lk)
    also have "\<dots> = Some (Inr (acc @ inorder (ANode i l es ks)))"
      by (simp only: ih [OF lastk] inorder_node [OF len] append_assoc)
    finally show ?thesis by (simp add: fuel)
  qed
qed

subsection \<open>search\<close>

lemma skipGreater_le: "i \<le> length es \<Longrightarrow> skipGreater k es i \<le> length es"
proof (induction k es i rule: skipGreater.induct)
  case (1 k es i)
  show ?case
  proof (cases "i < length es \<and> 0 < compareValues k (key (es ! i))")
    case True
    then have "skipGreater k es i = skipGreater k es (i + 1)" by (subst skipGreater.simps) simp
    with 1 True show ?thesis by simp
  next
    case False
    then have "skipGreater k es i = i" by (subst skipGreater.simps) auto
    with 1 show ?thesis by simp
  qed
qed

lemma searchNode_repr:
  "repr t T \<Longrightarrow> shape T \<Longrightarrow> height T \<le> fuel \<Longrightarrow>
   \<exists>r. searchNode fuel t (aid T) k acc = Some (Inr r)"
proof (induction T arbitrary: fuel acc)
  case (ANode i l es ks)
  from ANode.prems(3) obtain f where fuel: "fuel = Suc f" by (cases fuel) auto
  from repr_getNode [OF ANode.prems(1)] obtain n where
    n: "getNode t i = Inr n" "isLeaf n = l" "entries n = es" "children n = map aid ks" by blast
  show ?case
  proof (cases l)
    case True
    with n show ?thesis by (simp add: fuel)
  next
    case False
    with ANode.prems(2) have len: "length ks = length es + 1" by simp
    define j where "j = skipGreater k es 0"
    have "j \<le> length es" unfolding j_def by (rule skipGreater_le) simp
    with len have jl: "j < length ks" by simp
    then have mem: "ks ! j \<in> set ks" by simp
    from mem ANode.prems have "repr t (ks ! j)" "shape (ks ! j)" by auto
    moreover have "height (ks ! j) \<le> f" using mem ANode.prems(3) fuel by simp
    ultimately obtain r where
      "searchNode f t (aid (ks ! j)) k (collectEqual k es j acc) = Some (Inr r)"
      using ANode.IH [OF mem] by blast
    with n False jl show ?thesis by (simp add: fuel elemAt_def j_def [symmetric])
  qed
qed

subsection \<open>searchFirst\<close>

lemma searchNodeFirstInt_repr:
  "repr t T \<Longrightarrow> height T \<le> fuel \<Longrightarrow>
   \<exists>r. searchNodeFirstInt fuel junk t (aid T) keyInt = Some (Inr r)"
proof (induction T arbitrary: fuel)
  case (ANode i l es ks)
  from ANode.prems(2) obtain f where fuel: "fuel = Suc f" by (cases fuel) auto
  from repr_getNode [OF ANode.prems(1)] obtain n where
    n: "getNode t i = Inr n" "isLeaf n = l" "entries n = es" "children n = map aid ks" by blast
  define j where "j = lowerBoundInt junk keyInt es 0 (length es)"
  show ?case
  proof (cases "\<not> l \<and> j < length ks")
    case True
    then have mem: "ks ! j \<in> set ks" by simp
    from mem ANode.prems have "repr t (ks ! j)" by auto
    moreover have "height (ks ! j) \<le> f" using mem ANode.prems(2) fuel by simp
    ultimately obtain r where "searchNodeFirstInt f junk t (aid (ks ! j)) keyInt = Some (Inr r)"
      using ANode.IH [OF mem] by blast
    with n True show ?thesis by (simp add: fuel j_def [symmetric])
  next
    case False
    with n show ?thesis by (auto simp add: fuel j_def [symmetric])
  qed
qed

lemma searchNodeFirst_repr:
  "repr t T \<Longrightarrow> height T \<le> fuel \<Longrightarrow>
   \<exists>r. searchNodeFirst fuel junk t (aid T) k = Some (Inr r)"
proof (induction T arbitrary: fuel)
  case (ANode i l es ks)
  from ANode.prems(2) obtain f where fuel: "fuel = Suc f" by (cases fuel) auto
  show ?case
  proof (cases "tryGetInt64 k")
    case (Some keyInt)
    from searchNodeFirstInt_repr [OF ANode.prems, of junk keyInt] Some show ?thesis
      by (simp add: fuel)
  next
    case None
    from repr_getNode [OF ANode.prems(1)] obtain n where
      n: "getNode t i = Inr n" "isLeaf n = l" "entries n = es" "children n = map aid ks" by blast
    define j where "j = lowerBound k es 0 (length es)"
    show ?thesis
    proof (cases "\<not> l \<and> j < length ks")
      case True
      then have mem: "ks ! j \<in> set ks" by simp
      from mem ANode.prems have "repr t (ks ! j)" by auto
      moreover have "height (ks ! j) \<le> f" using mem ANode.prems(2) fuel by simp
      ultimately obtain r where "searchNodeFirst f junk t (aid (ks ! j)) k = Some (Inr r)"
        using ANode.IH [OF mem] by blast
      with n True None show ?thesis by (simp add: fuel j_def [symmetric])
    next
      case False
      with n None show ?thesis by (auto simp add: fuel j_def [symmetric])
    qed
  qed
qed

subsection \<open>range\<close>

lemma rangeLoop_aloop:
  assumes lf: "isLeaf node = l" and ch: "children node = map aid ks" and es: "entries node = es"
    and ih: "\<And>k acc. k \<in> set ks \<Longrightarrow>
       rangeSearch fuel t (aid k) lo hi acc = Some (Inr (arange lo hi k acc))"
  shows "i \<le> length es \<Longrightarrow>
     \<exists>i' r. rangeLoop fuel t node i lo hi acc = Some (Inr (i', r)) \<and>
       (if \<not> l \<and> i' = length es \<and> i' < length ks
        then rangeSearch fuel t (aid (ks ! i')) lo hi r else Some (Inr r)) =
       Some (Inr (aloop lo hi l (drop i es) (drop i ks) acc))"
proof (induction "length es - i" arbitrary: i acc)
  case 0
  then have i: "i = length es" by simp
  have loop: "rangeLoop fuel t node i lo hi acc = Some (Inr (i, acc))"
    by (subst rangeLoop.simps) (simp add: es i)
  show ?case
  proof (cases "i < length ks")
    case True
    then have d: "drop i ks = ks ! i # drop (Suc i) ks" by (simp add: Cons_nth_drop_Suc)
    from True have "ks ! i \<in> set ks" by simp
    from ih [OF this] show ?thesis by (simp add: loop i [symmetric] d True)
  next
    case False
    then show ?thesis by (simp add: loop i [symmetric])
  qed
next
  case (Suc d)
  then have lt: "i < length es" by simp
  from Suc(2) have d: "d = length es - (i + 1)" by simp
  have le: "i + 1 \<le> length es" using lt by simp
  note step = Suc(1) [OF d le]
  have de: "drop i es = es ! i # drop (Suc i) es" using lt by (simp add: Cons_nth_drop_Suc)
  define e where "e = es ! i"
  show ?case
  proof (cases "i < length ks")
    case True
    then have dk: "drop i ks = ks ! i # drop (Suc i) ks" by (simp add: Cons_nth_drop_Suc)
    from True have "ks ! i \<in> set ks" by simp
    note kid = ih [OF this]
    define acc1 where
      "acc1 = (if \<not> l \<and> 0 \<le> compareValues (key e) lo then arange lo hi (ks ! i) acc else acc)"
    define acc2 where
      "acc2 = (if 0 \<le> compareValues (key e) lo \<and> compareValues (key e) hi \<le> 0
               then acc1 @ [e] else acc1)"
    have al: "aloop lo hi l (drop i es) (drop i ks) acc =
       (if 0 < compareValues (key e) hi then acc2 else aloop lo hi l (drop (Suc i) es) (drop (Suc i) ks) acc2)"
      by (simp add: de dk acc1_def acc2_def e_def Let_def)
    have rl: "rangeLoop fuel t node i lo hi acc =
       (if 0 < compareValues (key e) hi then Some (Inr (i, acc2))
        else rangeLoop fuel t node (i + 1) lo hi acc2)"
      by (subst rangeLoop.simps)
        (simp add: es lf ch lt True kid acc1_def acc2_def e_def Let_def)
    show ?thesis
    proof (cases "0 < compareValues (key e) hi")
      case c: True
      then show ?thesis using lt by (simp add: rl al)
    next
      case c: False
      from step [of acc2] c show ?thesis by (simp add: rl al)
    qed
  next
    case False
    then have dk: "drop i ks = []" "drop (Suc i) ks = []" by simp_all
    define acc2 where
      "acc2 = (if 0 \<le> compareValues (key e) lo \<and> compareValues (key e) hi \<le> 0
               then acc @ [e] else acc)"
    have al: "aloop lo hi l (drop i es) (drop i ks) acc =
       (if 0 < compareValues (key e) hi then acc2 else aloop lo hi l (drop (Suc i) es) (drop (Suc i) ks) acc2)"
      by (simp add: de dk acc2_def e_def Let_def)
    have rl: "rangeLoop fuel t node i lo hi acc =
       (if 0 < compareValues (key e) hi then Some (Inr (i, acc2))
        else rangeLoop fuel t node (i + 1) lo hi acc2)"
      by (subst rangeLoop.simps)
        (simp add: es lf ch lt False acc2_def e_def Let_def)
    show ?thesis
    proof (cases "0 < compareValues (key e) hi")
      case c: True
      then show ?thesis using lt by (simp add: rl al)
    next
      case c: False
      from step [of acc2] c show ?thesis by (simp add: rl al)
    qed
  qed
qed

lemma rangeSearch_repr:
  "repr t T \<Longrightarrow> height T \<le> fuel \<Longrightarrow>
   rangeSearch fuel t (aid T) lo hi acc = Some (Inr (arange lo hi T acc))"
proof (induction T arbitrary: fuel acc)
  case (ANode i l es ks)
  from ANode.prems(2) obtain f where fuel: "fuel = Suc f" by (cases fuel) auto
  from repr_getNode [OF ANode.prems(1)] obtain n where
    n: "getNode t i = Inr n" "isLeaf n = l" "entries n = es" "children n = map aid ks" by blast
  have ih: "rangeSearch f t (aid k) lo hi acc' = Some (Inr (arange lo hi k acc'))"
    if "k \<in> set ks" for k acc'
  proof -
    from that ANode.prems have "repr t k" by auto
    moreover have "height k \<le> f" using that ANode.prems(2) fuel by simp
    ultimately show ?thesis using ANode.IH [OF that] by blast
  qed
  from rangeLoop_aloop [OF n(2) n(4) n(3) ih, of 0 acc] obtain i' r where
    loop: "rangeLoop f t n 0 lo hi acc = Some (Inr (i', r))"
    and fin: "(if \<not> l \<and> i' = length es \<and> i' < length ks
        then rangeSearch f t (aid (ks ! i')) lo hi r else Some (Inr r)) =
       Some (Inr (aloop lo hi l es ks acc))"
    by auto
  have "rangeSearch (Suc f) t i lo hi acc =
     (if \<not> l \<and> i' = length es \<and> i' < length ks
        then rangeSearch f t (aid (ks ! i')) lo hi r else Some (Inr r))"
    by (simp add: n loop)
  with fin show ?case by (simp add: fuel)
qed

section \<open>Indexes built through the public interface\<close>

text \<open>
  With an order below 2 the root counts as full even when it is empty, and the split that
  \<open>insert\<close> starts with reads the middle entry of an empty vector.
\<close>

lemma BTree_insert_small_order:
  assumes "nodes t (rootId t) = Some rn" and "entries rn = []" and "rootId t \<noteq> nextNodeId t"
    and "order t \<le> 1"
  shows "BTree_insert fuel t k off len seq = Some (Inl OutOfRange)"
  using assms
  by (simp add: BTree_insert_def createNode_def modifyNode_def getNode_def splitChild_def
      elemAtInt_def elemAt_def Let_def)

lemma tree_inv_empty_leaf:
  assumes "tree_inv t (ANode r True [] [])"
  shows "\<exists>rn. nodes t (rootId t) = Some rn \<and> entries rn = [] \<and> rootId t \<noteq> nextNodeId t"
proof -
  from assms have v: "view t r = Some (True, [], [])" and r: "r = rootId t"
    and b: "r < nextNodeId t"
    unfolding tree_inv_def by auto
  from v obtain rn where "nodes t r = Some rn" "entries rn = []"
    by (auto simp add: view_def core_def)
  with r b show ?thesis by auto
qed

lemma BTree_run_small_order:
  assumes "tree_inv t (ANode r True [] [])" and "order t \<le> 1"
  shows "BTree_run fuel t ops = Some (Inl OutOfRange) \<or>
     (\<exists>t' r'. BTree_run fuel t ops = Some (Inr t') \<and> tree_inv t' (ANode r' True [] []) \<and>
        order t' = order t \<and> keyType t' = keyType t \<and> set ops \<subseteq> {Clear})"
  using assms
proof (induction ops arbitrary: t r)
  case Nil
  then show ?case by auto
next
  case (Cons x ops)
  show ?case
  proof (cases x)
    case (Insert k off len seq)
    from tree_inv_empty_leaf [OF Cons.prems(1)] obtain rn where
      "nodes t (rootId t) = Some rn" "entries rn = []" "rootId t \<noteq> nextNodeId t" by blast
    from BTree_insert_small_order [OF this Cons.prems(2)] show ?thesis by (simp add: Insert)
  next
    case Clear
    note c = BTree_clear_inv [of t]
    from c have inv1: "tree_inv (BTree_clear t) (ANode 1 True [] [])" by blast
    have o1: "order (BTree_clear t) \<le> 1" using c Cons.prems(2) by simp
    from Cons.IH [OF inv1 o1] c show ?thesis by (auto simp add: Clear)
  qed
qed

lemma live_entries_clears: "set ops \<subseteq> {Clear} \<Longrightarrow> ops \<noteq> [] \<or> acc = [] \<Longrightarrow> live_entries acc ops = []"
proof (induction ops arbitrary: acc)
  case Nil
  then show ?case by simp
next
  case (Cons x ops)
  then have "x = Clear" by simp
  with Cons show ?case by simp
qed

lemma BTree_run_new:
  assumes run: "BTree_run fuel (BTree_new kt ord n) ops = Some (Inr t)" and fuel: "length ops < fuel"
  shows "\<exists>T. tree_inv t T \<and> order t = ord \<and> keyType t = kt \<and>
     mset (inorder T) = mset (live_entries [] ops) \<and>
     (consistent K \<and> key ` entry_of ` set ops \<subseteq> K \<longrightarrow> sorted_wrt key_le (inorder T))"
proof -
  note new = BTree_new_inv [of kt ord n]
  from new have inv0: "tree_inv (BTree_new kt ord n) (ANode n True [] [])" by blast
  show ?thesis
  proof (cases "2 \<le> ord")
    case True
    have o: "2 \<le> order (BTree_new kt ord n)" using new True by simp
    have f: "entryCount (BTree_new kt ord n) + length ops < fuel" using new fuel by simp
    from BTree_run_tree [OF inv0 o f, of K] run new show ?thesis by auto
  next
    case False
    have o: "order (BTree_new kt ord n) \<le> 1" using new False by simp
    from BTree_run_small_order [OF inv0 o, of fuel ops] run obtain r' where
      inv: "tree_inv t (ANode r' True [] [])" and f: "order t = ord" "keyType t = kt"
      and cl: "set ops \<subseteq> {Clear}"
      using new by auto
    have "live_entries [] ops = []" using cl by (rule live_entries_clears) simp
    with inv f show ?thesis by (intro exI [of _ "ANode r' True [] []"]) simp
  qed
qed

lemma BTree_run_total:
  assumes "2 \<le> ord" and "length ops < fuel"
  shows "\<exists>t. BTree_run fuel (BTree_new kt ord n) ops = Some (Inr t)"
proof -
  note new = BTree_new_inv [of kt ord n]
  from new have inv0: "tree_inv (BTree_new kt ord n) (ANode n True [] [])" by blast
  have o: "2 \<le> order (BTree_new kt ord n)" using new assms by simp
  have f: "entryCount (BTree_new kt ord n) + length ops < fuel" using new assms by simp
  from BTree_run_tree [OF inv0 o f, of "{}"] show ?thesis by blast
qed

lemma BTree_run_not_corrupted: "BTree_run fuel (BTree_new kt ord n) ops \<noteq> Some (Inl (NodeNotFound i))"
  if "length ops < fuel"
proof (cases "2 \<le> ord")
  case True
  from BTree_run_total [OF True that, of kt n] show ?thesis by auto
next
  case False
  note new = BTree_new_inv [of kt ord n]
  from new have inv0: "tree_inv (BTree_new kt ord n) (ANode n True [] [])" by blast
  have o: "order (BTree_new kt ord n) \<le> 1" using new False by simp
  from BTree_run_small_order [OF inv0 o, of fuel ops] show ?thesis by auto
qed

lemma queries_return:
  assumes inv: "tree_inv t T" and fuel: "entryCount t < fuel"
  shows "(\<exists>r. BTree_search fuel t k = Some (Inr r)) \<and>
     (\<exists>r. BTree_searchFirst fuel junk t k = Some (Inr r)) \<and>
     BTree_range fuel t lo hi = Some (Inr (arange lo hi T [])) \<and>
     BTree_all fuel t = Some (Inr (inorder T))"
proof -
  from inv have r: "repr t T" and a: "aid T = rootId t" and s: "shape T"
    and h: "height T \<le> entryCount t + 1"
    unfolding tree_inv_def by blast+
  from h fuel have hf: "height T \<le> fuel" by simp
  from searchNode_repr [OF r s hf, of k "[]"] have 1: "\<exists>r. BTree_search fuel t k = Some (Inr r)"
    by (simp add: BTree_search_def a)
  from searchNodeFirst_repr [OF r hf, of junk k]
  have 2: "\<exists>r. BTree_searchFirst fuel junk t k = Some (Inr r)"
    by (simp add: BTree_searchFirst_def a)
  from rangeSearch_repr [OF r hf, of lo hi "[]"]
  have 3: "BTree_range fuel t lo hi = Some (Inr (arange lo hi T []))"
    by (simp add: BTree_range_def a)
  from collectAll_repr [OF r s hf, of "[]"] have 4: "BTree_all fuel t = Some (Inr (inorder T))"
    by (simp add: BTree_all_def a)
  from 1 2 3 4 show ?thesis by blast
qed


lemma tree_inv_count_le: "tree_inv t T \<Longrightarrow> mset (inorder T) = mset (live_entries [] ops) \<Longrightarrow>
   entryCount t = length (live_entries [] ops)"
  using tree_inv_count [of t T] mset_eq_length [of "inorder T" "live_entries [] ops"] by simp

lemma live_entries_length: "length (live_entries acc ops) \<le> length acc + length ops"
proof (induction acc ops rule: live_entries.induct)
  case (3 acc k off len seq ops)
  then show ?case by simp
qed simp_all

text \<open>
  C9: an index is built by a run of \<open>insert\<close> and \<open>clear\<close> on a new tree, with fuel
  above the number of calls. For an order of at least 2 every such run returns; getNode
  never throws "Node not found" during a run, whatever the order; and on the tree that a
  run returns, \<open>search\<close>, \<open>searchFirst\<close>, \<open>range\<close> and \<open>all\<close> return a result
  with the same fuel: they neither throw nor run out of fuel.
\<close>

theorem BTree_queries_never_fail:
  assumes "length ops < fuel"
  shows "(2 \<le> ord \<longrightarrow> (\<exists>t. BTree_run fuel (BTree_new kt ord firstId) ops = Some (Inr t))) \<and>
    (\<forall>i. BTree_run fuel (BTree_new kt ord firstId) ops \<noteq> Some (Inl (NodeNotFound i))) \<and>
    (\<forall>t. BTree_run fuel (BTree_new kt ord firstId) ops = Some (Inr t) \<longrightarrow>
       (\<exists>r. BTree_search fuel t k = Some (Inr r)) \<and>
       (\<exists>r. BTree_searchFirst fuel junk t k = Some (Inr r)) \<and>
       (\<exists>r. BTree_range fuel t lo hi = Some (Inr r)) \<and>
       (\<exists>r. BTree_all fuel t = Some (Inr r)))"
proof (intro conjI allI impI)
  show "\<exists>t. BTree_run fuel (BTree_new kt ord firstId) ops = Some (Inr t)" if "2 \<le> ord"
    using BTree_run_total [OF that assms] .
  show "BTree_run fuel (BTree_new kt ord firstId) ops \<noteq> Some (Inl (NodeNotFound i))" for i
    using BTree_run_not_corrupted [OF assms] .
  fix t
  assume run: "BTree_run fuel (BTree_new kt ord firstId) ops = Some (Inr t)"
  from BTree_run_new [OF run assms, of "{}"] obtain T where
    inv: "tree_inv t T" and ms: "mset (inorder T) = mset (live_entries [] ops)" by blast
  have "entryCount t = length (live_entries [] ops)" using tree_inv_count_le [OF inv ms] .
  with live_entries_length [of "[]" ops] assms have f: "entryCount t < fuel" by simp
  note q = queries_return [OF inv f, of k junk lo hi]
  from q show "\<exists>r. BTree_search fuel t k = Some (Inr r)" by blast
  from q show "\<exists>r. BTree_searchFirst fuel junk t k = Some (Inr r)" by blast
  from q show "\<exists>r. BTree_range fuel t lo hi = Some (Inr r)" by blast
  from q show "\<exists>r. BTree_all fuel t = Some (Inr r)" by blast
qed

theorem BTree_queries_never_fail_witness:
  "length [Insert (VInt32 3) 0 8 1, Insert (VInt32 1) 8 8 2, Insert (VInt32 2) 16 8 3,
           Insert (VInt32 1) 24 8 4, Insert (VInt32 5) 32 8 5] < (6::nat) \<and>
   (\<exists>t. BTree_run 6 (BTree_new Int32 4 1)
          [Insert (VInt32 3) 0 8 1, Insert (VInt32 1) 8 8 2, Insert (VInt32 2) 16 8 3,
           Insert (VInt32 1) 24 8 4, Insert (VInt32 5) 32 8 5] = Some (Inr t) \<and>
        (\<exists>r. BTree_search 6 t (VInt32 1) = Some (Inr r)) \<and>
        (\<exists>r. BTree_searchFirst 6 0 t (VInt32 1) = Some (Inr r)) \<and>
        (\<exists>r. BTree_range 6 t (VInt32 1) (VInt32 3) = Some (Inr r)) \<and>
        (\<exists>r. BTree_all 6 t = Some (Inr r)))"
  using BTree_queries_never_fail [of
      "[Insert (VInt32 3) 0 8 1, Insert (VInt32 1) 8 8 2, Insert (VInt32 2) 16 8 3,
        Insert (VInt32 1) 24 8 4, Insert (VInt32 5) 32 8 5]" 6 4 Int32 1 "VInt32 1" 0
      "VInt32 1" "VInt32 3"]
  by (simp del: BTree_run.simps) blast



end
